theory Spec2Isabelle
  imports Main "HOL-Library.Word"
begin

unbundle bit_operations_syntax

section \<open>Data model\<close>

text \<open>
  Python integers are unbounded: coefficients and bits are \<open>int\<close>. The elements of a Python
  \<open>bytes\<close> object are the integers 0..255: a byte is an 8-bit word, read as an integer with
  \<open>uint\<close>. Bit widths and lengths (\<open>d\<close>, \<open>eta\<close>, output lengths) are natural numbers.
  Every function of the source that takes the modulus as \<open>q: int = 3329\<close> is only ever
  called with that default; the model fixes it as \<open>Q\<close>.
\<close>

type_synonym byte = "8 word"

text \<open>
  One constructor for each \<open>raise\<close> of the source, and \<open>IndexError\<close> for a list read out of
  range. All but \<open>XofShort\<close> (a RuntimeError) and \<open>IndexError\<close> are ValueErrors in Python.
\<close>

datatype error =
    BitLength       \<comment> \<open>bits_to_bytes: "Bit array length must be multiple of 8"\<close>
  | BitValue        \<comment> \<open>bits_to_bytes: "Bits must be 0 or 1"\<close>
  | CompressParam   \<comment> \<open>compress, decompress: "d must be 1 <= d < 12"\<close>
  | ArrayLength     \<comment> \<open>byte_encode: "Array must contain exactly 256 elements"\<close>
  | NotWholeBytes   \<comment> \<open>byte_encode: "d doesn't produce whole bytes"\<close>
  | OutOfRange      \<comment> \<open>byte_encode: "Value x out of range"\<close>
  | ByteLength      \<comment> \<open>byte_decode: "Expected n bytes for d"\<close>
  | ChunkLength     \<comment> \<open>byte_decode: "Invalid bit length during decoding"\<close>
  | SeedLength      \<comment> \<open>sample_ntt: "SampleNTT requires exactly 34 input bytes"\<close>
  | XofShort        \<comment> \<open>sample_ntt: RuntimeError "XOF failed to produce required bytes"\<close>
  | EtaInvalid      \<comment> \<open>PRF, sample_poly_cbd: "eta must be 2 or 3"\<close>
  | CbdLength       \<comment> \<open>sample_poly_cbd: "Expected n bytes for eta"\<close>
  | PrfSeedLength   \<comment> \<open>PRF: "s must be 32 bytes"\<close>
  | PrfLabelLength  \<comment> \<open>PRF: "b must be 1 byte"\<close>
  | MessageLength   \<comment> \<open>encode_message: "Message must be exactly 32 bytes"\<close>
  | IndexError      \<comment> \<open>a list index out of range\<close>

fun is_ValueError :: "error \<Rightarrow> bool" where
  "is_ValueError XofShort = False"
| "is_ValueError IndexError = False"
| "is_ValueError e = True"

definition Q :: int where
  "Q = 3329"

definition N :: nat where
  "N = 256"

section \<open>Bit and byte conversion\<close>

text \<open>The inner loop of \<open>bits_to_bytes\<close> over the remaining values of \<open>j\<close>.\<close>

fun pack_bits :: "int list \<Rightarrow> nat \<Rightarrow> nat list \<Rightarrow> int \<Rightarrow> error + int" where
  "pack_bits bits i [] byte_val = Inr byte_val"
| "pack_bits bits i (j # js) byte_val =
     (let bit = bits ! (i * 8 + j)
      in if bit \<noteq> 0 \<and> bit \<noteq> 1 then Inl BitValue
         else pack_bits bits i js (byte_val OR push_bit j bit))"

text \<open>The outer loop over the remaining values of \<open>i\<close>; \<open>result[i] = byte_val\<close> fills the
  bytes in order.\<close>

fun pack_bytes :: "int list \<Rightarrow> nat list \<Rightarrow> error + byte list" where
  "pack_bytes bits [] = Inr []"
| "pack_bytes bits (i # is) =
     (case pack_bits bits i [0..<8] 0 of
        Inl e \<Rightarrow> Inl e
      | Inr byte_val \<Rightarrow>
          (case pack_bytes bits is of
             Inl e \<Rightarrow> Inl e
           | Inr rest \<Rightarrow> Inr (word_of_int byte_val # rest)))"

definition bits_to_bytes :: "int list \<Rightarrow> error + byte list" where
  "bits_to_bytes bits =
     (if length bits mod 8 \<noteq> 0 then Inl BitLength
      else pack_bytes bits [0..<length bits div 8])"

definition bytes_to_bits :: "byte list \<Rightarrow> int list" where
  "bytes_to_bits data =
     concat (map (\<lambda>byte. map (\<lambda>j. drop_bit j (uint byte) AND 1) [0..<8]) data)"

text \<open>The byte packed from the eight bits \<open>bits[8*i .. 8*i+7]\<close>: the value that the
  inner loop of \<open>bits_to_bytes\<close> leaves in \<open>byte_val\<close>. Used to state what the loop computes.\<close>

definition byte_at :: "int list \<Rightarrow> nat \<Rightarrow> byte" where
  "byte_at bits i = word_of_int (fold (\<lambda>j a. a OR push_bit j (bits ! (i * 8 + j))) [0..<8] 0)"

section \<open>Compression and decompression\<close>

definition compress :: "int \<Rightarrow> nat \<Rightarrow> error + int" where
  "compress x d =
     (if \<not> (1 \<le> d \<and> d < 12) then Inl CompressParam
      else Inr ((push_bit d x div Q) AND (push_bit d 1 - 1)))"

definition decompress :: "int \<Rightarrow> nat \<Rightarrow> error + int" where
  "decompress y d =
     (if \<not> (1 \<le> d \<and> d < 12) then Inl CompressParam
      else Inr (drop_bit d (y * Q + push_bit (d - 1) 1)))"

text \<open>A list comprehension \<open>[f(c) for c in xs]\<close> whose body may raise: the first error
  ends it.\<close>

fun map_err :: "('a \<Rightarrow> error + 'b) \<Rightarrow> 'a list \<Rightarrow> error + 'b list" where
  "map_err f [] = Inr []"
| "map_err f (x # xs) =
     (case f x of
        Inl e \<Rightarrow> Inl e
      | Inr y \<Rightarrow> (case map_err f xs of Inl e \<Rightarrow> Inl e | Inr ys \<Rightarrow> Inr (y # ys)))"

section \<open>Byte encoding and decoding\<close>

text \<open>The loop of \<open>byte_encode\<close> over the remaining coefficients.\<close>

fun encode_bits :: "int list \<Rightarrow> nat \<Rightarrow> int \<Rightarrow> error + int list" where
  "encode_bits [] d m = Inr []"
| "encode_bits (x # xs) d m =
     (if \<not> (0 \<le> x \<and> x < m) then Inl OutOfRange
      else (case encode_bits xs d m of
              Inl e \<Rightarrow> Inl e
            | Inr bits \<Rightarrow> Inr (map (\<lambda>j. drop_bit j x AND 1) [0..<d] @ bits)))"

definition byte_encode :: "int list \<Rightarrow> nat \<Rightarrow> error + byte list" where
  "byte_encode F d =
     (if length F \<noteq> 256 then Inl ArrayLength
      else let m = (if d < 12 then push_bit d 1 else Q);
               total_bits = 256 * d
           in if total_bits mod 8 \<noteq> 0 then Inl NotWholeBytes
              else (case encode_bits F d m of
                      Inl e \<Rightarrow> Inl e
                    | Inr bits \<Rightarrow> bits_to_bytes bits))"

text \<open>\<open>sum(bit << j for j, bit in enumerate(chunk))\<close>\<close>

definition chunk_value :: "int list \<Rightarrow> int" where
  "chunk_value chunk = sum_list (map (\<lambda>(j, bit). push_bit j bit) (enumerate 0 chunk))"

text \<open>The loop of \<open>byte_decode\<close> over the remaining values of \<open>i\<close>; the slice
  \<open>bits[i*d : (i+1)*d]\<close> is cut short at the end of the list, as \<open>take\<close> and \<open>drop\<close> are.\<close>

fun decode_chunks :: "int list \<Rightarrow> nat \<Rightarrow> int \<Rightarrow> nat list \<Rightarrow> error + int list" where
  "decode_chunks bits d m [] = Inr []"
| "decode_chunks bits d m (i # is) =
     (let chunk = take d (drop (i * d) bits)
      in if length chunk \<noteq> d then Inl ChunkLength
         else (case decode_chunks bits d m is of
                 Inl e \<Rightarrow> Inl e
               | Inr rest \<Rightarrow> Inr (chunk_value chunk mod m # rest)))"

definition byte_decode :: "byte list \<Rightarrow> nat \<Rightarrow> error + int list" where
  "byte_decode B d =
     (let m = (if d < 12 then push_bit d 1 else Q);
          expected_bytes = (256 * d) div 8
      in if length B \<noteq> expected_bytes then Inl ByteLength
         else decode_chunks (bytes_to_bits B) d m [0..<256])"

section \<open>Number-theoretic transform\<close>

definition ZETA_PRECOMP :: "int list" where
  "ZETA_PRECOMP = [
    1, 1729, 2580, 3289, 2642, 630, 1897, 848, 1062, 1919, 193, 797, 2786, 3260, 569, 1746,
    296, 2447, 1339, 1476, 3046, 56, 2240, 1333, 1426, 2094, 535, 2882, 2393, 2879, 1974, 821,
    289, 331, 3253, 1756, 1197, 2304, 2277, 2055, 650, 1977, 2513, 632, 2865, 33, 1320, 1915,
    2319, 1435, 807, 452, 1438, 2868, 1534, 2402, 2647, 2617, 1481, 648, 2474, 3110, 1227, 910,
    17, 2761, 583, 2649, 1637, 723, 2288, 1100, 1409, 2662, 3281, 233, 756, 2156, 3015, 3050,
    1703, 1651, 2789, 1789, 1847, 952, 1461, 2687, 939, 2308, 2437, 2388, 733, 2337, 268, 641,
    1584, 2298, 2037, 3220, 375, 2549, 2090, 1645, 1063, 319, 2773, 757, 2099, 561, 2466, 2594,
    2804, 1092, 403, 1026, 1143, 2150, 2775, 886, 1722, 1212, 1874, 1029, 2110, 2935, 885, 2154]"

definition GAMMA_PRECOMP :: "int list" where
  "GAMMA_PRECOMP = [
    17, -17, 2761, -2761, 583, -583, 2649, -2649, 1637, -1637, 723, -723, 2288, -2288, 1100, -1100,
    1409, -1409, 2662, -2662, 3281, -3281, 233, -233, 756, -756, 2156, -2156, 3015, -3015, 3050, -3050,
    1703, -1703, 1651, -1651, 2789, -2789, 1789, -1789, 1847, -1847, 952, -952, 1461, -1461, 2687, -2687,
    939, -939, 2308, -2308, 2437, -2437, 2388, -2388, 733, -733, 2337, -2337, 268, -268, 641, -641,
    1584, -1584, 2298, -2298, 2037, -2037, 3220, -3220, 375, -375, 2549, -2549, 2090, -2090, 1645, -1645,
    1063, -1063, 319, -319, 2773, -2773, 757, -757, 2099, -2099, 561, -561, 2466, -2466, 2594, -2594,
    2804, -2804, 1092, -1092, 403, -403, 1026, -1026, 1143, -1143, 2150, -2150, 2775, -2775, 886, -886,
    1722, -1722, 1212, -1212, 1874, -1874, 1029, -1029, 2110, -2110, 2935, -2935, 885, -885, 2154, -2154]"


text \<open>
  \<open>pow(z, -1, Q)\<close>: the inverse of \<open>z\<close> modulo \<open>Q\<close> in \<open>[0, Q)\<close>, by the extended
  Euclidean algorithm. Every entry of \<open>ZETA_PRECOMP\<close> is invertible modulo \<open>Q\<close>
  (lemma \<open>ZETA_PRECOMP_INV_inverse\<close> below), so the ValueError of a non-invertible base
  does not arise when the table is built.
\<close>

function inv_euclid :: "int \<Rightarrow> int \<Rightarrow> int \<Rightarrow> int \<Rightarrow> int" where
  "inv_euclid r0 r1 t0 t1 =
     (if r1 \<le> 0 then t0 else inv_euclid r1 (r0 mod r1) t1 (t0 - (r0 div r1) * t1))"
  by pat_completeness auto
termination
  by (relation "measure (\<lambda>(r0, r1, t0, t1). nat r1)") auto

definition pow_inv :: "int \<Rightarrow> int \<Rightarrow> int" where
  "pow_inv z m = inv_euclid m (z mod m) 0 1 mod m"

definition ZETA_PRECOMP_INV :: "int list" where
  "ZETA_PRECOMP_INV = map (\<lambda>z. pow_inv z Q) ZETA_PRECOMP"

text \<open>\<open>range(0, n, step)\<close> for a positive step.\<close>

definition range_step :: "nat \<Rightarrow> nat \<Rightarrow> nat list" where
  "range_step n step = map (\<lambda>i. i * step) [0..<(n + step - 1) div step]"

text \<open>One pass of the innermost loop body of \<open>ntt\<close>, at index \<open>j\<close>.\<close>

definition ntt_butterfly :: "int \<Rightarrow> nat \<Rightarrow> int list \<Rightarrow> nat \<Rightarrow> int list" where
  "ntt_butterfly zeta len f j =
     (let t = (zeta * f ! (j + len)) mod Q;
          f1 = f[j + len := (f ! j - t) mod Q]
      in f1[j := (f1 ! j + t) mod Q])"

text \<open>The \<open>for start\<close> loop of one layer; the state is the array and the table index \<open>k\<close>.\<close>

definition ntt_layer :: "nat \<Rightarrow> int list \<times> nat \<Rightarrow> int list \<times> nat" where
  "ntt_layer len fk =
     fold (\<lambda>start (f, k).
             (fold (\<lambda>j f. ntt_butterfly (ZETA_PRECOMP ! k) len f j) [start..<start + len] f,
              k + 1))
          (range_step N (2 * len)) fk"

text \<open>\<open>while length >= 2: ...; length >>= 1\<close>\<close>

function ntt_layers :: "nat \<Rightarrow> int list \<times> nat \<Rightarrow> int list \<times> nat" where
  "ntt_layers len fk = (if len \<ge> 2 then ntt_layers (len div 2) (ntt_layer len fk) else fk)"
  by pat_completeness auto
termination
  by (relation "measure (\<lambda>(len, fk). len)") auto

text \<open>
  The butterflies of the first layer read every index below 256 in increasing order, on a
  private copy of the argument: a list shorter than 256 raises IndexError before anything
  is returned, and a longer one keeps its tail.
\<close>

definition ntt :: "int list \<Rightarrow> error + int list" where
  "ntt f = (if length f < 256 then Inl IndexError else Inr (fst (ntt_layers 128 (f, 1))))"

definition ntt_inv_butterfly :: "int \<Rightarrow> nat \<Rightarrow> int list \<Rightarrow> nat \<Rightarrow> int list" where
  "ntt_inv_butterfly zeta_inv len f j =
     (let t = f ! j;
          f1 = f[j := (t + f ! (j + len)) mod Q]
      in f1[j + len := (zeta_inv * ((f1 ! (j + len) - t) mod Q)) mod Q])"

definition ntt_inv_layer :: "nat \<Rightarrow> int list \<times> nat \<Rightarrow> int list \<times> nat" where
  "ntt_inv_layer len fk =
     fold (\<lambda>start (f, k).
             (fold (\<lambda>j f. ntt_inv_butterfly (ZETA_PRECOMP_INV ! k) len f j)
                   [start..<start + len] f,
              k - 1))
          (range_step N (2 * len)) fk"

text \<open>\<open>while length <= 128: ...; length <<= 1\<close>, entered with \<open>length = 2\<close>. The test
  \<open>0 < len\<close> is not in the source: doubling 0 would never leave the loop, and the loop is
  only entered at 2.\<close>

function ntt_inv_layers :: "nat \<Rightarrow> int list \<times> nat \<Rightarrow> int list \<times> nat" where
  "ntt_inv_layers len fk =
     (if 0 < len \<and> len \<le> 128 then ntt_inv_layers (2 * len) (ntt_inv_layer len fk) else fk)"
  by pat_completeness auto
termination
  by (relation "measure (\<lambda>(len, fk). 129 - len)") auto

definition ntt_inv :: "int list \<Rightarrow> error + int list" where
  "ntt_inv f_hat =
     (if length f_hat < 256 then Inl IndexError
      else let n_inv = 3303
           in Inr (map (\<lambda>x. (x * n_inv) mod Q) (fst (ntt_inv_layers 2 (f_hat, 127)))))"

definition base_case_multiply :: "int \<Rightarrow> int \<Rightarrow> int \<Rightarrow> int \<Rightarrow> int \<Rightarrow> int \<times> int" where
  "base_case_multiply a0 a1 b0 b1 gamma =
     (let c0 = ((a0 * b0) mod Q + (((a1 * b1) mod Q) * gamma) mod Q) mod Q;
          c1 = ((a0 * b1) mod Q + (a1 * b0) mod Q) mod Q
      in (c0, c1))"

text \<open>Index \<open>2*i+1\<close> reaches 255: an argument shorter than 256 raises IndexError.\<close>

definition multiply_ntts :: "int list \<Rightarrow> int list \<Rightarrow> error + int list" where
  "multiply_ntts f_hat g_hat =
     (if length f_hat < 256 \<or> length g_hat < 256 then Inl IndexError
      else Inr (fold (\<lambda>i h_hat.
                  let gamma = GAMMA_PRECOMP ! i;
                      (h0, h1) = base_case_multiply (f_hat ! (2 * i)) (f_hat ! (2 * i + 1))
                                   (g_hat ! (2 * i)) (g_hat ! (2 * i + 1)) gamma
                  in (h_hat[2 * i := h0])[2 * i + 1 := h1])
                [0..<128] (replicate N 0)))"

definition poly_add :: "int list \<Rightarrow> int list \<Rightarrow> int list" where
  "poly_add a b = map (\<lambda>(x, y). (x + y) mod Q) (zip a b)"

subsection \<open>The layers as block operations\<close>

text \<open>
  One layer of \<open>ntt\<close> (\<open>ntt_inv\<close>) applied to the first \<open>n\<close> blocks of \<open>2 * len\<close> coefficients,
  written with \<open>take\<close>, \<open>drop\<close> and \<open>zip\<close> instead of indexed updates, and the seven layers
  composed. These are not translations of source functions: they are proved equal to the
  loops above (lemmas \<open>ntt_eq_fun\<close> and \<open>ntt_inv_eq_fun\<close>) and serve to evaluate the
  transforms on concrete inputs.
\<close>

fun ntt_blocks :: "nat \<Rightarrow> nat \<Rightarrow> nat \<Rightarrow> int list \<Rightarrow> int list" where
  "ntt_blocks len k 0 f = f"
| "ntt_blocks len k (Suc n) f =
     (let lo = take len f; hi = take len (drop len f);
          t = map (\<lambda>b. (ZETA_PRECOMP ! k * b) mod Q) hi
      in map2 (\<lambda>a t. (a + t) mod Q) lo t @ map2 (\<lambda>a t. (a - t) mod Q) lo t
         @ ntt_blocks len (k + 1) n (drop (2 * len) f))"

definition ntt_fun :: "int list \<Rightarrow> int list" where
  "ntt_fun f = ntt_blocks 2 64 64 (ntt_blocks 4 32 32 (ntt_blocks 8 16 16 (ntt_blocks 16 8 8
     (ntt_blocks 32 4 4 (ntt_blocks 64 2 2 (ntt_blocks 128 1 1 f))))))"

fun ntt_inv_blocks :: "nat \<Rightarrow> nat \<Rightarrow> nat \<Rightarrow> int list \<Rightarrow> int list" where
  "ntt_inv_blocks len k 0 f = f"
| "ntt_inv_blocks len k (Suc n) f =
     (let lo = take len f; hi = take len (drop len f)
      in map2 (\<lambda>a b. (a + b) mod Q) lo hi
         @ map2 (\<lambda>a b. (ZETA_PRECOMP_INV ! k * ((b - a) mod Q)) mod Q) lo hi
         @ ntt_inv_blocks len (k - 1) n (drop (2 * len) f))"

definition ntt_inv_fun :: "int list \<Rightarrow> int list" where
  "ntt_inv_fun f = map (\<lambda>x. (x * 3303) mod Q)
     (ntt_inv_blocks 128 1 1 (ntt_inv_blocks 64 3 2 (ntt_inv_blocks 32 7 4
       (ntt_inv_blocks 16 15 8 (ntt_inv_blocks 8 31 16 (ntt_inv_blocks 4 63 32
         (ntt_inv_blocks 2 127 64 f)))))))"

text \<open>The coefficient-range invariant of a ring element of \<open>n\<close> coefficients.\<close>

definition coeffs_inv :: "nat \<Rightarrow> int list \<Rightarrow> bool" where
  "coeffs_inv n f \<longleftrightarrow> length f = n \<and> (\<forall>x\<in>set f. 0 \<le> x \<and> x < Q)"

section \<open>Hash functions\<close>

text \<open>
  Python's \<open>hashlib\<close> is not part of the repository: it is a parameter of the model. Each
  primitive maps the data hashed to its output, addressed by byte index: SHA3-256 and
  SHA3-512 have 32 and 64 output bytes, SHAKE128 and SHAKE256 an unbounded output stream
  of which \<open>digest(n)\<close> returns the first \<open>n\<close> bytes.
\<close>

record hashlib =
  lib_sha3_256 :: "byte list \<Rightarrow> nat \<Rightarrow> byte"
  lib_sha3_512 :: "byte list \<Rightarrow> nat \<Rightarrow> byte"
  lib_shake_128 :: "byte list \<Rightarrow> nat \<Rightarrow> byte"
  lib_shake_256 :: "byte list \<Rightarrow> nat \<Rightarrow> byte"

definition sha3_256 :: "hashlib \<Rightarrow> byte list \<Rightarrow> byte list" where
  "sha3_256 h data = map (lib_sha3_256 h data) [0..<32]"

definition sha3_512 :: "hashlib \<Rightarrow> byte list \<Rightarrow> byte list" where
  "sha3_512 h data = map (lib_sha3_512 h data) [0..<64]"

definition shake128 :: "hashlib \<Rightarrow> byte list \<Rightarrow> nat \<Rightarrow> byte list" where
  "shake128 h data output_length = map (lib_shake_128 h data) [0..<output_length]"

definition shake256 :: "hashlib \<Rightarrow> byte list \<Rightarrow> nat \<Rightarrow> byte list" where
  "shake256 h data output_length = map (lib_shake_256 h data) [0..<output_length]"

definition PRF :: "hashlib \<Rightarrow> nat \<Rightarrow> byte list \<Rightarrow> byte list \<Rightarrow> error + byte list" where
  "PRF h eta s b =
     (if eta \<noteq> 2 \<and> eta \<noteq> 3 then Inl EtaInvalid
      else if length s \<noteq> 32 then Inl PrfSeedLength
      else if length b \<noteq> 1 then Inl PrfLabelLength
      else Inr (shake256 h (s @ b) (64 * eta)))"

definition H :: "hashlib \<Rightarrow> byte list \<Rightarrow> byte list" where
  "H h s = sha3_256 h s"

definition J :: "hashlib \<Rightarrow> byte list \<Rightarrow> byte list" where
  "J h s = shake256 h s 32"

definition G :: "hashlib \<Rightarrow> byte list \<Rightarrow> byte list \<times> byte list" where
  "G h c = (let digest = sha3_512 h c in (take 32 digest, drop 32 digest))"

subsection \<open>The XOF object\<close>

text \<open>
  The state of an \<open>XOF\<close> object is its \<open>hashlib.shake_128\<close> context, that is the data
  absorbed so far. \<open>update\<close> appends to it; \<open>digest(length)\<close> returns the first \<open>length\<close>
  bytes of the SHAKE128 output of that data and leaves the context as it was.
\<close>

record XOF =
  ctx :: "byte list"

definition XOF_init :: XOF where
  "XOF_init = \<lparr>ctx = []\<rparr>"

definition absorb :: "XOF \<Rightarrow> byte list \<Rightarrow> XOF" where
  "absorb xof data = xof\<lparr>ctx := ctx xof @ data\<rparr>"

definition squeeze :: "hashlib \<Rightarrow> XOF \<Rightarrow> nat \<Rightarrow> byte list \<times> XOF" where
  "squeeze h xof len = (shake128 h (ctx xof) len, xof)"


section \<open>Sampling\<close>

text \<open>
  The \<open>while\<close> loop of \<open>sample_ntt\<close>. Nothing bounds the number of its iterations: the
  result is an option, \<open>None\<close> when the loop never ends. \<open>break\<close> leaves the loop for the
  \<open>return\<close> after it.
\<close>

partial_function (option) sample_ntt_loop ::
  "hashlib \<Rightarrow> XOF \<Rightarrow> int list \<Rightarrow> (error + int list) option" where
  "sample_ntt_loop h xof coefficients =
     (if length coefficients < 256 then
        (case squeeze h xof 3 of
           (C, xof') \<Rightarrow>
             if length C \<noteq> 3 then Some (Inl XofShort)
             else
               let d1 = uint (C ! 0) + 256 * (uint (C ! 1) AND 15);
                   d2 = drop_bit 4 (uint (C ! 1)) + 16 * uint (C ! 2);
                   coefficients1 = (if d1 < Q then coefficients @ [d1] else coefficients)
               in if d1 < Q \<and> length coefficients1 = 256 then Some (Inr coefficients1)
                  else sample_ntt_loop h xof'
                         (if d2 < Q \<and> length coefficients1 < 256 then coefficients1 @ [d2]
                          else coefficients1))
      else Some (Inr coefficients))"

definition sample_ntt :: "hashlib \<Rightarrow> byte list \<Rightarrow> (error + int list) option" where
  "sample_ntt h B =
     (if length B \<noteq> 34 then Some (Inl SeedLength)
      else sample_ntt_loop h (absorb XOF_init B) [])"

definition sample_poly_cbd :: "nat \<Rightarrow> byte list \<Rightarrow> error + int list" where
  "sample_poly_cbd eta B =
     (if eta \<noteq> 2 \<and> eta \<noteq> 3 then Inl EtaInvalid
      else let expected_length = 64 * eta
           in if length B \<noteq> expected_length then Inl CbdLength
              else let bits = bytes_to_bits B
                   in Inr (map (\<lambda>i. let start = i * 2 * eta;
                                         x_bits = take eta (drop start bits);
                                         y_bits = take eta (drop (start + eta) bits);
                                         x = sum_list x_bits;
                                         y = sum_list y_bits
                                     in (x - y) mod Q)
                               [0..<256]))"

section \<open>K-PKE\<close>

type_synonym ek_pke = "int list \<times> int list"
type_synonym dk_pke = "byte list \<times> int list \<times> int list"

text \<open>Sequencing of steps that may raise.\<close>

definition bind_err :: "error + 'a \<Rightarrow> ('a \<Rightarrow> error + 'b) \<Rightarrow> error + 'b" where
  "bind_err r f = (case r of Inl e \<Rightarrow> Inl e | Inr v \<Rightarrow> f v)"

text \<open>
  \<open>k_pke_keygen\<close>; the two results of \<open>os.urandom(32)\<close> are the arguments \<open>r1\<close> and \<open>r2\<close>.
  The result is \<open>None\<close> when \<open>sample_ntt\<close> does not return.
\<close>

definition k_pke_keygen ::
  "hashlib \<Rightarrow> nat \<Rightarrow> nat \<Rightarrow> nat \<Rightarrow> byte list \<Rightarrow> byte list \<Rightarrow> (error + ek_pke \<times> dk_pke) option"
  where
  "k_pke_keygen h d eta1 eta2 r1 r2 =
     (case bind_err (PRF h eta1 r1 [0]) (\<lambda>seed_s1.
           bind_err (sample_poly_cbd eta1 seed_s1) (\<lambda>s1.
           bind_err (PRF h eta2 r1 [1]) (\<lambda>seed_s2.
           bind_err (sample_poly_cbd eta2 seed_s2) (\<lambda>s2. Inr (s1, s2))))) of
        Inl e \<Rightarrow> Some (Inl e)
      | Inr (s1, s2) \<Rightarrow>
          (let A_input = r2 @ [0, 0]
           in case sample_ntt h A_input of
                None \<Rightarrow> None
              | Some (Inl e) \<Rightarrow> Some (Inl e)
              | Some (Inr A) \<Rightarrow>
                  Some (bind_err (ntt s1) (\<lambda>s1_hat.
                        bind_err (ntt s2) (\<lambda>s2_hat.
                        bind_err (multiply_ntts A s1_hat) (\<lambda>product.
                          let t_hat = poly_add product s2_hat
                          in bind_err (byte_encode t_hat d) (\<lambda>b_enc.
                               Inr ((A, t_hat), (b_enc, s1, s2)))))))))"

definition encode_message :: "byte list \<Rightarrow> error + int list" where
  "encode_message m =
     (if length m \<noteq> 32 then Inl MessageLength
      else let bit_array = bytes_to_bits m
           in Inr (map (\<lambda>bit. bit mod Q) bit_array))"

definition k_pke_encrypt ::
  "hashlib \<Rightarrow> ek_pke \<Rightarrow> byte list \<Rightarrow> byte list \<Rightarrow> nat \<Rightarrow> nat \<Rightarrow> error + byte list" where
  "k_pke_encrypt h ek m r d eta =
     (case ek of (A, t_hat) \<Rightarrow>
        bind_err (PRF h eta r [0]) (\<lambda>y_seed.
        bind_err (PRF h eta r [1]) (\<lambda>e1_seed.
        bind_err (PRF h eta r [2]) (\<lambda>e2_seed.
        bind_err (sample_poly_cbd eta y_seed) (\<lambda>y.
        bind_err (sample_poly_cbd eta e1_seed) (\<lambda>e1.
        bind_err (sample_poly_cbd eta e2_seed) (\<lambda>e2.
        bind_err (ntt y) (\<lambda>y_hat.
        bind_err (ntt e1) (\<lambda>e1_hat.
        bind_err (ntt e2) (\<lambda>e2_hat.
        bind_err (multiply_ntts A y_hat) (\<lambda>A_times_y.
          let u_hat = poly_add A_times_y e1_hat
          in bind_err (multiply_ntts t_hat y_hat) (\<lambda>t_times_y.
               let v_hat0 = poly_add t_times_y e2_hat
               in bind_err (encode_message m) (\<lambda>m_poly.
                  bind_err (ntt m_poly) (\<lambda>m_hat.
                    let v_hat = poly_add v_hat0 m_hat
                    in bind_err (map_err (\<lambda>coeff. compress coeff d) u_hat) (\<lambda>u_hat_compressed.
                       bind_err (byte_encode u_hat_compressed d) (\<lambda>c1.
                       bind_err (map_err (\<lambda>coeff. compress coeff d) v_hat) (\<lambda>v_hat_compressed.
                       bind_err (byte_encode v_hat_compressed d) (\<lambda>c2.
                         Inr (c1 @ c2)))))))))))))))))))"

definition decode_message :: "int list \<Rightarrow> error + byte list" where
  "decode_message poly =
     bits_to_bytes (map (\<lambda>coeff. if coeff < Q div 2 then 0 else 1) (take 256 poly))"

definition k_pke_decrypt :: "dk_pke \<Rightarrow> byte list \<Rightarrow> nat \<Rightarrow> error + byte list" where
  "k_pke_decrypt dk c d =
     (case dk of (b_enc, s1, s2) \<Rightarrow>
        let poly_bytes_len = (256 * d) div 8;
            c1 = take poly_bytes_len c;
            c2 = drop poly_bytes_len c
        in bind_err (byte_decode c1 d) (\<lambda>u_hat_compressed.
           bind_err (byte_decode c2 d) (\<lambda>v_hat_compressed.
           bind_err (map_err (\<lambda>y. decompress y d) u_hat_compressed) (\<lambda>u_hat.
           bind_err (map_err (\<lambda>y. decompress y d) v_hat_compressed) (\<lambda>v_hat.
           bind_err (ntt s1) (\<lambda>s1_hat.
           bind_err (multiply_ntts u_hat s1_hat) (\<lambda>u_s1_hat.
             let w_hat = map (\<lambda>(vh, uh). (vh - uh) mod 3329) (zip v_hat u_s1_hat)
             in bind_err (ntt_inv w_hat) (\<lambda>w. decode_message w))))))))"

section \<open>The key-encapsulation mechanism\<close>

text \<open>The encapsulation and decapsulation keys are Python tuples of one element, read with
  \<open>ek[0]\<close> and \<open>dk[0]\<close>.\<close>

datatype 'a tuple1 = Tuple1 (item0: 'a)

definition ml_kem_keygen_internal ::
  "hashlib \<Rightarrow> nat \<Rightarrow> byte list \<Rightarrow> byte list \<Rightarrow> (error + ek_pke tuple1 \<times> dk_pke tuple1) option"
  where
  "ml_kem_keygen_internal h d r1 r2 =
     (case k_pke_keygen h d 2 2 r1 r2 of
        None \<Rightarrow> None
      | Some (Inl e) \<Rightarrow> Some (Inl e)
      | Some (Inr ((A, t_hat), (b_enc, s1, s2))) \<Rightarrow>
          (let ek_pke = (A, t_hat);
               ek = Tuple1 ek_pke;
               dk_pke = (b_enc, s1, s2);
               dk = Tuple1 dk_pke
           in Some (Inr (ek, dk))))"

text \<open>\<open>repr\<close> of an integer, of a list of integers and of the pair of lists \<open>(A, t_hat)\<close>,
  and \<open>str.encode()\<close> on such ASCII text.\<close>

function repr_nat :: "nat \<Rightarrow> string" where
  "repr_nat n =
     (if n < 10 then [char_of (48 + n)] else repr_nat (n div 10) @ [char_of (48 + n mod 10)])"
  by pat_completeness auto
termination
  by (relation "measure (\<lambda>n. n)") auto

definition repr_int :: "int \<Rightarrow> string" where
  "repr_int i = (if i < 0 then ''-'' @ repr_nat (nat (- i)) else repr_nat (nat i))"

fun join_comma :: "string list \<Rightarrow> string" where
  "join_comma [] = []"
| "join_comma [s] = s"
| "join_comma (s # ss) = s @ '', '' @ join_comma ss"

definition repr_list :: "int list \<Rightarrow> string" where
  "repr_list xs = ''['' @ join_comma (map repr_int xs) @ '']''"

definition repr_ek_pke :: "ek_pke \<Rightarrow> string" where
  "repr_ek_pke ek = (case ek of (A, t_hat) \<Rightarrow> ''('' @ repr_list A @ '', '' @ repr_list t_hat @ '')'')"

definition str_encode :: "string \<Rightarrow> byte list" where
  "str_encode s = map (\<lambda>c. word_of_nat (of_char c)) s"

definition ml_kem_encaps_internal ::
  "hashlib \<Rightarrow> ek_pke tuple1 \<Rightarrow> byte list \<Rightarrow> nat \<Rightarrow> error + byte list \<times> byte list" where
  "ml_kem_encaps_internal h ek r d =
     (let ek_pke = item0 ek;
          hashed_ek = H h (str_encode (repr_ek_pke (item0 ek)));
          ephemeral_input = hashed_ek @ r
      in case G h ephemeral_input of
           (k1, k2) \<Rightarrow>
             let ephemeral_r = k1
             in bind_err (k_pke_encrypt h ek_pke ephemeral_r ephemeral_r d 2) (\<lambda>c.
                  let K = H h ephemeral_r in Inr (c, K)))"

definition ml_kem_decaps_internal ::
  "hashlib \<Rightarrow> dk_pke tuple1 \<Rightarrow> byte list \<Rightarrow> nat \<Rightarrow> error + byte list" where
  "ml_kem_decaps_internal h dk c d =
     (let dk_pke = item0 dk
      in bind_err (k_pke_decrypt dk_pke c d) (\<lambda>ephemeral_r.
           let K = H h ephemeral_r in Inr K))"

section \<open>Hash libraries used at concrete inputs\<close>

text \<open>
  A hash library whose SHAKE128 output stream is \<open>73, 223, 217\<close> repeated and whose other
  outputs are zero. The first three bytes of the real SHAKE128 output for 34 zero bytes
  are \<open>73, 223, 217\<close> (\<open>hashlib.shake_128(bytes(34)).digest(3)\<close>).
\<close>

definition zero_seed_xof :: hashlib where
  "zero_seed_xof =
     \<lparr>lib_sha3_256 = (\<lambda>data i. 0), lib_sha3_512 = (\<lambda>data i. 0),
      lib_shake_128 = (\<lambda>data i. [73, 223, 217] ! (i mod 3)),
      lib_shake_256 = (\<lambda>data i. 0)\<rparr>"

text \<open>
  A hash library under which every step of key generation, encapsulation and decapsulation
  can be followed by hand: the SHAKE outputs are all zero (so the sampled polynomials are
  zero), SHA3-512 returns the byte 1 followed by zeros, and SHA3-256 returns the first 32
  bytes of its input.
\<close>

definition toy_hashes :: hashlib where
  "toy_hashes =
     \<lparr>lib_sha3_256 = (\<lambda>data i. if i < length data then data ! i else 0),
      lib_sha3_512 = (\<lambda>data i. if i = 0 then 1 else 0),
      lib_shake_128 = (\<lambda>data i. 0),
      lib_shake_256 = (\<lambda>data i. 0)\<rparr>"


section \<open>The XOF object and rejection sampling\<close>

lemma squeeze_absorb:
  "squeeze h (absorb XOF_init data) n = (shake128 h data n, absorb XOF_init data)"
  by (simp add: squeeze_def absorb_def XOF_init_def)

text \<open>
  Claim C2. The claim wants the second \<open>squeeze\<close> to return the bytes that follow those of
  the first. In the code both calls return a prefix of the SHAKE128 output stream of the
  absorbed data: the second call starts again at byte 0.
\<close>

theorem xof_squeeze_restarts:
  "fst (squeeze h (absorb XOF_init data) n1) = take n1 (shake128 h data (n1 + n2))
   \<and> fst (squeeze h (snd (squeeze h (absorb XOF_init data) n1)) n2)
       = take n2 (shake128 h data (n1 + n2))"
  by (simp add: squeeze_absorb shake128_def take_map)

text \<open>When both candidates of the first chunk are rejected, every later iteration sees the
  same chunk and the same list: the loop has no result.\<close>

lemma sample_ntt_loop_diverges:
  assumes C: "shake128 h (ctx xof) 3 = [c0, c1, c2]"
    and d1: "Q \<le> uint c0 + 256 * (uint c1 AND 15)"
    and d2: "Q \<le> drop_bit 4 (uint c1) + 16 * uint c2"
    and len: "length cs < 256"
  shows "sample_ntt_loop h xof cs = None"
proof (cases "sample_ntt_loop h xof cs")
  case None
  then show ?thesis .
next
  case (Some y)
  let ?P = "\<lambda>h' xof' (cs' :: int list) (y' :: error + int list).
              \<not> (h' = h \<and> xof' = xof \<and> length cs' < 256)"
  have "?P h xof cs y"
  proof (rule sample_ntt_loop.raw_induct [where P = ?P, OF _ Some])
    fix loop h' xof' cs' y'
    assume IH: "\<And>a b c y. loop a b c = Some y \<Longrightarrow> ?P a b c y"
      and body: "(if length cs' < 256
      then case squeeze h' xof' 3 of
           (C, xof'') \<Rightarrow>
             if length C \<noteq> 3 then Some (Inl XofShort)
             else let d1 = uint (C ! 0) + 256 * (uint (C ! 1) AND 15);
                      d2 = drop_bit 4 (uint (C ! 1)) + 16 * uint (C ! 2);
                      coefficients1 =
                        if d1 < Q then cs' @ [d1] else cs'
                  in if d1 < Q \<and> length coefficients1 = 256
                     then Some (Inr coefficients1)
                     else loop h' xof''
                           (if d2 < Q \<and> length coefficients1 < 256
                            then coefficients1 @ [d2] else coefficients1)
      else Some (Inr cs')) = Some y'"
    show "?P h' xof' cs' y'"
    proof
      assume a: "h' = h \<and> xof' = xof \<and> length cs' < 256"
      with body C d1 d2 have "loop h xof cs' = Some y'"
        by (simp add: squeeze_def Let_def)
      from IH [OF this] a show False by simp
    qed
  qed
  with len show ?thesis by simp
qed

lemma sample_ntt_diverges:
  assumes "length B = 34" and "shake128 h B 3 = [c0, c1, c2]"
    and "Q \<le> uint c0 + 256 * (uint c1 AND 15)"
    and "Q \<le> drop_bit 4 (uint c1) + 16 * uint c2"
  shows "sample_ntt h B = None"
  using assms
  by (simp add: sample_ntt_def absorb_def XOF_init_def
        sample_ntt_loop_diverges [where ?c0.0 = c0 and ?c1.0 = c1 and ?c2.0 = c2])

lemma sample_ntt_zero_seed:
  assumes "shake128 h (replicate 34 0) 3 = [73, 223, 217]"
  shows "sample_ntt h (replicate 34 0) = None"
  by (rule sample_ntt_diverges [OF _ assms]) (simp_all add: Q_def)

lemma zero_seed_xof_shake128: "shake128 zero_seed_xof B 3 = [73, 223, 217]"
  by (simp add: shake128_def zero_seed_xof_def upt_conv_Cons)

text \<open>
  Claim C1. The claim wants \<open>sample_ntt\<close> to return 256 coefficients for every 34-byte
  input. For the input of 34 zero bytes, whose SHAKE128 output starts with the bytes
  \<open>73, 223, 217\<close>, both candidates of the chunk are at least \<open>q\<close> (3913 and 3485), every
  \<open>squeeze(3)\<close> returns that same chunk, and \<open>sample_ntt\<close> does not return.
\<close>

theorem sample_ntt_zero_seed_diverges:
  assumes "shake128 h (replicate 34 0) 3 = [73, 223, 217]"
  shows "sample_ntt h (replicate 34 0) = None"
  by (rule sample_ntt_zero_seed [OF assms])

theorem sample_ntt_zero_seed_diverges_witness:
  "shake128 zero_seed_xof (replicate 34 0) 3 = [73, 223, 217]
   \<and> sample_ntt zero_seed_xof (replicate 34 0) = None"
  using sample_ntt_zero_seed_diverges [of zero_seed_xof] zero_seed_xof_shake128 by simp

section \<open>Key generation\<close>

lemma PRF_ok:
  "eta = 2 \<or> eta = 3 \<Longrightarrow> length s = 32 \<Longrightarrow>
     PRF h eta s [b] = Inr (shake256 h (s @ [b]) (64 * eta))"
  by (auto simp: PRF_def)

lemma length_shake256 [simp]: "length (shake256 h data n) = n"
  by (simp add: shake256_def)

lemma sample_poly_cbd_ok:
  "eta = 2 \<or> eta = 3 \<Longrightarrow> length B = 64 * eta \<Longrightarrow>
     \<exists>s. sample_poly_cbd eta B = Inr s \<and> length s = 256"
  by (auto simp: sample_poly_cbd_def Let_def)

lemma replicate_34: "replicate 32 (0::byte) @ [0, 0] = replicate 34 0"
proof -
  have "replicate 34 (0::byte) = replicate 32 0 @ replicate 2 0"
    by (simp add: replicate_add [symmetric])
  then show ?thesis by (simp add: numeral_2_eq_2)
qed

text \<open>
  Claim C3. The claim wants \<open>k_pke_keygen(10)\<close> to succeed for every choice of its two
  32-byte seeds. When the second seed \<open>r2\<close> is 32 zero bytes, the input of \<open>sample_ntt\<close> is
  34 zero bytes and key generation does not return, whatever the first seed is.
\<close>

theorem k_pke_keygen_zero_seed_diverges:
  assumes "shake128 h (replicate 34 0) 3 = [73, 223, 217]" and "length r1 = 32"
  shows "k_pke_keygen h 10 2 2 r1 (replicate 32 0) = None"
proof -
  obtain s1 where s1: "sample_poly_cbd 2 (shake256 h (r1 @ [0]) (64 * 2)) = Inr s1"
    using sample_poly_cbd_ok [of 2 "shake256 h (r1 @ [0]) (64 * 2)"] by auto
  obtain s2 where s2: "sample_poly_cbd 2 (shake256 h (r1 @ [1]) (64 * 2)) = Inr s2"
    using sample_poly_cbd_ok [of 2 "shake256 h (r1 @ [1]) (64 * 2)"] by auto
  have "sample_ntt h (replicate 32 0 @ [0, 0]) = None"
    unfolding replicate_34 by (rule sample_ntt_zero_seed [OF assms(1)])
  then show ?thesis
    using s1 s2 assms(2) by (simp add: k_pke_keygen_def PRF_ok bind_err_def)
qed

theorem k_pke_keygen_zero_seed_diverges_witness:
  "shake128 zero_seed_xof (replicate 34 0) 3 = [73, 223, 217]
   \<and> length (replicate 32 (0::byte)) = 32
   \<and> k_pke_keygen zero_seed_xof 10 2 2 (replicate 32 0) (replicate 32 0) = None"
  using k_pke_keygen_zero_seed_diverges [of zero_seed_xof "replicate 32 0"]
    zero_seed_xof_shake128 by simp


section \<open>Bits, bytes and the byte encoding\<close>

lemma pack_bits_ok:
  "\<forall>j\<in>set js. bits ! (i * 8 + j) = 0 \<or> bits ! (i * 8 + j) = 1 \<Longrightarrow>
     pack_bits bits i js acc = Inr (fold (\<lambda>j a. a OR push_bit j (bits ! (i * 8 + j))) js acc)"
  by (induction js arbitrary: acc) (auto simp: Let_def)

lemma bit_fold_or:
  "bit (fold (\<lambda>j a. a OR push_bit j (b j)) js (acc::int)) k
     \<longleftrightarrow> bit acc k \<or> (\<exists>j\<in>set js. bit (push_bit j (b j)) k)"
  by (induction js arbitrary: acc) (auto simp: bit_or_iff)

lemma bit_push_bit_01:
  "(b::int) = 0 \<or> b = 1 \<Longrightarrow> bit (push_bit j b) k \<longleftrightarrow> k = j \<and> b = 1"
  by (auto simp: bit_push_bit_iff bit_1_iff)

lemma drop_bit_and_1: "(drop_bit j (x::int) AND 1) = of_bool (bit x j)"
  by (simp add: and_one_eq bit_iff_odd_drop_bit mod_2_eq_odd)

lemma unpack_byte_at:
  assumes "\<forall>j<8. bits ! (i * 8 + j) = 0 \<or> bits ! (i * 8 + j) = 1" and "j < 8"
  shows "drop_bit j (uint (byte_at bits i)) AND 1 = bits ! (i * 8 + j)"
proof -
  have "bit (uint (byte_at bits i)) j \<longleftrightarrow> bits ! (i * 8 + j) = 1"
    using assms
    by (auto simp: byte_at_def bit_uint_iff bit_word_of_int_iff bit_fold_or bit_push_bit_01)
  then show ?thesis
    using assms by (auto simp: drop_bit_and_1)
qed

lemma pack_bytes_ok:
  "\<forall>i\<in>set is. \<forall>j<8. bits ! (i * 8 + j) = 0 \<or> bits ! (i * 8 + j) = 1 \<Longrightarrow>
     pack_bytes bits is = Inr (map (byte_at bits) is)"
  by (induction "is") (auto simp: pack_bits_ok byte_at_def)

lemma bytes_to_bits_byte_at:
  "\<forall>i\<in>set is. \<forall>j<8. bits ! (i * 8 + j) = 0 \<or> bits ! (i * 8 + j) = 1 \<Longrightarrow>
     bytes_to_bits (map (byte_at bits) is)
       = concat (map (\<lambda>i. map (\<lambda>j. bits ! (i * 8 + j)) [0..<8]) is)"
  by (induction "is") (auto simp: bytes_to_bits_def unpack_byte_at)

lemma map_nth_window: "k + n \<le> length xs \<Longrightarrow> map (\<lambda>j. xs ! (k + j)) [0..<n] = take n (drop k xs)"
  by (auto simp: list_eq_iff_nth_eq)

lemma concat_windows:
  "8 * n \<le> length xs \<Longrightarrow>
     concat (map (\<lambda>i. map (\<lambda>j. xs ! (i * 8 + j)) [0..<8]) [0..<n]) = take (8 * n) xs"
proof (induction n)
  case 0
  then show ?case by simp
next
  case (Suc n)
  then have w: "map (\<lambda>j. xs ! (n * 8 + j)) [0..<8] = take 8 (drop (n * 8) xs)"
    by (intro map_nth_window) simp
  have t: "take (8 * Suc n) xs = take (8 * n) xs @ take 8 (drop (n * 8) xs)"
    using take_add [of "8 * n" 8 xs] by (simp add: mult.commute add.commute)
  from Suc w show ?case
    unfolding t by simp
qed

lemma bits_to_bytes_eq:
  assumes "length bits = 8 * n" and "\<forall>b\<in>set bits. b = 0 \<or> b = 1"
  shows "bits_to_bytes bits = Inr (map (byte_at bits) [0..<n])"
proof -
  have "\<forall>i\<in>set [0..<n]. \<forall>j<8. bits ! (i * 8 + j) = 0 \<or> bits ! (i * 8 + j) = 1"
    using assms by (auto simp: all_set_conv_all_nth)
  from pack_bytes_ok [OF this] assms(1) show ?thesis
    by (simp add: bits_to_bytes_def)
qed

lemma bits_roundtrip:
  assumes "length bits = 8 * n" and "\<forall>b\<in>set bits. b = 0 \<or> b = 1"
  shows "\<exists>bs. bits_to_bytes bits = Inr bs \<and> length bs = n \<and> bytes_to_bits bs = bits"
proof -
  have ok: "\<forall>i\<in>set [0..<n]. \<forall>j<8. bits ! (i * 8 + j) = 0 \<or> bits ! (i * 8 + j) = 1"
    using assms by (auto simp: all_set_conv_all_nth)
  have "bits_to_bytes bits = Inr (map (byte_at bits) [0..<n])"
    using assms(1) pack_bytes_ok [OF ok] by (simp add: bits_to_bytes_def)
  moreover have "bytes_to_bits (map (byte_at bits) [0..<n]) = bits"
    using bytes_to_bits_byte_at [OF ok] concat_windows [of n bits] assms(1) by simp
  ultimately show ?thesis by simp
qed

lemma encode_bits_ok:
  "\<forall>x\<in>set F. 0 \<le> x \<and> x < m \<Longrightarrow>
     encode_bits F d m = Inr (concat (map (\<lambda>x. map (\<lambda>j. drop_bit j x AND 1) [0..<d]) F))"
  by (induction F) auto

lemma encode_bits_Inr:
  "encode_bits F d m = Inr bits \<Longrightarrow> \<forall>x\<in>set F. 0 \<le> x \<and> x < m"
  by (induction F arbitrary: bits) (auto split: if_splits sum.splits)

lemma length_concat_uniform:
  "\<forall>x\<in>set xs. length (g x) = d \<Longrightarrow> length (concat (map g xs)) = length xs * d"
  by (induction xs) auto

lemma chunk_of_concat:
  "\<forall>x\<in>set xs. length (g x) = d \<Longrightarrow> i < length xs \<Longrightarrow>
     take d (drop (i * d) (concat (map g xs))) = g (xs ! i)"
proof (induction xs arbitrary: i)
  case Nil
  then show ?case by simp
next
  case (Cons x xs)
  show ?case
  proof (cases i)
    case 0
    with Cons.prems show ?thesis by simp
  next
    case (Suc i')
    with Cons.prems have "i' < length xs" by simp
    from Cons.IH [OF _ this] Cons.prems(1) Suc show ?thesis by simp
  qed
qed

lemma decode_chunks_ok:
  "\<forall>i\<in>set is. (i + 1) * d \<le> length bits \<Longrightarrow>
     decode_chunks bits d m is
       = Inr (map (\<lambda>i. chunk_value (take d (drop (i * d) bits)) mod m) is)"
  by (induction "is") (auto simp: Let_def)

lemma enumerate_map_upt:
  "map (\<lambda>(j, b). f j b) (enumerate 0 (map g [0..<d])) = map (\<lambda>j. f j (g j)) [0..<d]"
  by (auto simp: list_eq_iff_nth_eq nth_enumerate_eq)

lemma sum_bits_take_bit:
  "sum_list (map (\<lambda>j. push_bit j (drop_bit j (x::int) AND 1)) [0..<d]) = take_bit d x"
  by (induction d) (auto simp: drop_bit_and_1 take_bit_Suc_from_most push_bit_eq_mult)

lemma chunk_value_bits:
  "chunk_value (map (\<lambda>j. drop_bit j x AND 1) [0..<d]) = take_bit d x"
  unfolding chunk_value_def enumerate_map_upt by (rule sum_bits_take_bit)

lemma length_bytes_to_bits [simp]: "length (bytes_to_bits B) = 8 * length B"
  by (simp add: bytes_to_bits_def length_concat_uniform [where d = 8] mult.commute)

lemma byte_decode_ok:
  assumes "length B = 32 * d"
  shows "byte_decode B d
     = Inr (map (\<lambda>i. chunk_value (take d (drop (i * d) (bytes_to_bits B)))
                       mod (if d < 12 then push_bit d 1 else Q)) [0..<256])"
proof -
  have "\<forall>i\<in>set [0..<256]. (i + 1) * d \<le> length (bytes_to_bits B)"
  proof
    fix i assume "i \<in> set [0..<256]"
    then have "i + 1 \<le> 256" by simp
    then have "(i + 1) * d \<le> 256 * d" by (rule mult_le_mono1)
    with assms show "(i + 1) * d \<le> length (bytes_to_bits B)" by simp
  qed
  from decode_chunks_ok [OF this] assms show ?thesis
    by (simp add: byte_decode_def Let_def)
qed

lemma byte_encode_ok:
  assumes len: "length F = 256" and rng: "\<forall>x\<in>set F. 0 \<le> x \<and> x < (if d < 12 then push_bit d 1 else Q)"
  shows "\<exists>B. byte_encode F d = Inr B \<and> length B = 32 * d
            \<and> bytes_to_bits B = concat (map (\<lambda>x. map (\<lambda>j. drop_bit j x AND 1) [0..<d]) F)"
proof -
  let ?bits = "concat (map (\<lambda>x. map (\<lambda>j. drop_bit j x AND 1) [0..<d]) F)"
  have l: "length ?bits = 8 * (32 * d)"
    using len by (simp add: length_concat_uniform [where d = d])
  have b: "\<forall>b\<in>set ?bits. b = 0 \<or> b = 1"
    by (auto simp: drop_bit_and_1)
  from bits_roundtrip [OF l b] obtain bs where
    "bits_to_bytes ?bits = Inr bs" "length bs = 32 * d" "bytes_to_bits bs = ?bits" by blast
  then show ?thesis
    using len encode_bits_ok [OF rng] by (simp add: byte_encode_def Let_def)
qed

lemma byte_codec_roundtrip:
  assumes "length F = 256"
    and "\<forall>x\<in>set F. 0 \<le> x \<and> (if d < 12 then x < 2 ^ d else x < 3329)"
  shows "\<exists>B. byte_encode F d = Inr B \<and> length B = 32 * d \<and> byte_decode B d = Inr F"
proof -
  let ?m = "if d < 12 then push_bit d 1 else Q"
  let ?g = "\<lambda>x::int. map (\<lambda>j. drop_bit j x AND 1) [0..<d]"
  have rng: "\<forall>x\<in>set F. 0 \<le> x \<and> x < ?m"
    using assms(2) by (auto simp: Q_def push_bit_eq_mult split: if_splits)
  from byte_encode_ok [OF assms(1) rng] obtain B where
    B: "byte_encode F d = Inr B" "length B = 32 * d" "bytes_to_bits B = concat (map ?g F)"
    by blast
  have val: "chunk_value (take d (drop (i * d) (bytes_to_bits B))) mod ?m = F ! i"
    if "i < 256" for i
  proof -
    have x: "0 \<le> F ! i" "F ! i < ?m"
      using rng that assms(1) by (auto simp: all_set_conv_all_nth)
    have "take d (drop (i * d) (bytes_to_bits B)) = ?g (F ! i)"
      unfolding B(3) using that assms(1) by (intro chunk_of_concat) auto
    then have "chunk_value (take d (drop (i * d) (bytes_to_bits B))) = take_bit d (F ! i)"
      by (simp add: chunk_value_bits)
    also have "\<dots> = F ! i"
    proof (cases "d < 12")
      case True
      with x show ?thesis by (simp add: take_bit_int_eq_self push_bit_eq_mult)
    next
      case False
      then have "(2::int) ^ 12 \<le> 2 ^ d" by (intro power_increasing) auto
      with x False have "F ! i < 2 ^ d" by (simp add: Q_def)
      with x show ?thesis by (simp add: take_bit_int_eq_self)
    qed
    finally show ?thesis using x by simp
  qed
  have "map (\<lambda>i. chunk_value (take d (drop (i * d) (bytes_to_bits B))) mod ?m) [0..<256]
          = map (\<lambda>i. F ! i) [0..<256]"
    using val by (intro map_cong) auto
  also have "\<dots> = F"
    using assms(1) map_nth [of F] by simp
  finally show ?thesis
    using B byte_decode_ok [OF B(2)] by simp
qed

text \<open>
  Claim C8. For every bit width \<open>d\<close> (256 times \<open>d\<close> is always a multiple of 8) and every list
  \<open>F\<close> of exactly 256 integers, each in \<open>[0, 2^d)\<close> when \<open>d < 12\<close> and in \<open>[0, 3329)\<close> otherwise,
  \<open>byte_encode\<close> succeeds and \<open>byte_decode\<close> of its result is \<open>F\<close>.
\<close>

theorem byte_decode_byte_encode:
  assumes "length F = 256"
    and "\<forall>x\<in>set F. 0 \<le> x \<and> (if d < 12 then x < 2 ^ d else x < 3329)"
  shows "\<exists>B. byte_encode F d = Inr B \<and> byte_decode B d = Inr F"
  using byte_codec_roundtrip [OF assms] by blast

theorem byte_decode_byte_encode_witness:
  "length (replicate 256 (5::int)) = 256
   \<and> (\<exists>B. byte_encode (replicate 256 5) 8 = Inr B \<and> byte_decode B 8 = Inr (replicate 256 5))"
  using byte_decode_byte_encode [of "replicate 256 5" 8] by simp


section \<open>Decoding 12-bit values\<close>

lemma byte_255_bits: "map (\<lambda>j. drop_bit j (255::int) AND 1) [0..<8] = replicate 8 1"
  by code_simp

lemma concat_replicate_replicate:
  "concat (replicate n (replicate k x)) = replicate (n * k) x"
  by (induction n) (simp_all add: replicate_add)

lemma bytes_to_bits_ones: "bytes_to_bits (replicate n 255) = replicate (8 * n) 1"
  by (simp add: bytes_to_bits_def byte_255_bits concat_replicate_replicate mult.commute
        del: upt_rec_numeral)

lemma chunk_value_ones: "chunk_value (replicate 12 1) = 4095"
  by code_simp

lemma byte_decode_ones: "byte_decode (replicate 384 255) 12 = Inr (replicate 256 766)"
proof -
  have "chunk_value (take 12 (drop (i * 12) (bytes_to_bits (replicate 384 255)))) mod Q = 766"
    if "i < 256" for i
  proof -
    have "min 12 (3072 - i * 12) = 12" using that by simp
    then show ?thesis
      by (simp add: bytes_to_bits_ones chunk_value_ones Q_def)
  qed
  then have "map (\<lambda>i. chunk_value (take 12 (drop (i * 12) (bytes_to_bits (replicate 384 255))))
                       mod Q) [0..<256] = map (\<lambda>i. 766) [0..<256]"
    by (intro map_cong) auto
  also have "\<dots> = replicate 256 766"
    by (simp add: map_replicate_const del: upt_rec_numeral)
  finally show ?thesis
    using byte_decode_ok [of "replicate 384 255" 12] by simp
qed

text \<open>
  Claim C9, as stated, fails: in the 384 bytes \<open>0xFF\<close> every 12-bit chunk is 4095, which is not
  below \<open>q\<close>, and \<open>byte_decode\<close> returns 256 times \<open>766 = 4095 - 3329\<close> instead of an error.
\<close>

theorem byte_decode_12_wraps:
  "length (replicate 384 (255::byte)) = 384
   \<and> chunk_value (take 12 (bytes_to_bits (replicate 384 255))) = 4095
   \<and> \<not> (4095 < Q)
   \<and> byte_decode (replicate 384 255) 12 = Inr (replicate 256 766)"
  by (simp add: byte_decode_ones bytes_to_bits_ones chunk_value_ones Q_def)

text \<open>
  Claim C9, amended. For \<open>d = 12\<close>, \<open>byte_decode\<close> of any 384 bytes returns no error: it returns
  256 values, each the value of its 12-bit chunk reduced modulo \<open>q = 3329\<close>.
\<close>

theorem byte_decode_12_reduces:
  assumes "length B = 384"
  shows "\<exists>F. byte_decode B 12 = Inr F \<and> length F = 256
           \<and> (\<forall>i<256. F ! i = chunk_value (take 12 (drop (i * 12) (bytes_to_bits B))) mod 3329
                        \<and> 0 \<le> F ! i \<and> F ! i < 3329)"
  using byte_decode_ok [of B 12] assms by (simp add: Q_def del: upt_rec_numeral)

theorem byte_decode_12_reduces_witness:
  "length (replicate 384 (255::byte)) = 384
   \<and> (\<exists>F. byte_decode (replicate 384 255) 12 = Inr F \<and> length F = 256
           \<and> F ! 0 = chunk_value (take 12 (drop (0 * 12) (bytes_to_bits (replicate 384 255))))
                       mod 3329
           \<and> 0 \<le> F ! 0 \<and> F ! 0 < 3329)"
  using byte_decode_12_reduces [of "replicate 384 255"] by auto


section \<open>The coefficient range is preserved\<close>

lemma update_range:
  "\<forall>x\<in>set f. P x \<Longrightarrow> P v \<Longrightarrow> \<forall>x\<in>set (f[i := v]). P x"
  using set_update_subset_insert [of f i v] by auto

lemma mod_Q_range: "0 \<le> a mod Q \<and> a mod Q < Q"
  by (simp add: Q_def)

lemma coeffs_inv_update:
  "coeffs_inv n f \<Longrightarrow> coeffs_inv n (f[i := a mod Q])"
  unfolding coeffs_inv_def using update_range [of f "\<lambda>x. 0 \<le> x \<and> x < Q" "a mod Q" i]
  by (simp add: mod_Q_range)

lemma ntt_butterfly_inv: "coeffs_inv n f \<Longrightarrow> coeffs_inv n (ntt_butterfly z L f j)"
  by (simp add: ntt_butterfly_def Let_def coeffs_inv_update)

lemma ntt_block_inv:
  "coeffs_inv n f \<Longrightarrow> coeffs_inv n (fold (\<lambda>j f. ntt_butterfly z L f j) js f)"
  by (induction js arbitrary: f) (simp_all add: ntt_butterfly_inv)

lemma ntt_blocks_inv:
  "coeffs_inv n (fst fk) \<Longrightarrow>
     coeffs_inv n (fst (fold (\<lambda>start (f, k).
        (fold (\<lambda>j f. ntt_butterfly (ZETA_PRECOMP ! k) L f j) [start..<start + L] f, k + 1))
        starts fk))"
  by (induction starts arbitrary: fk) (simp_all add: split_beta ntt_block_inv)

lemma ntt_layer_inv: "coeffs_inv n (fst fk) \<Longrightarrow> coeffs_inv n (fst (ntt_layer L fk))"
  unfolding ntt_layer_def by (rule ntt_blocks_inv)

lemma ntt_layers_inv: "coeffs_inv n (fst fk) \<Longrightarrow> coeffs_inv n (fst (ntt_layers L fk))"
proof (induction L fk rule: ntt_layers.induct)
  case (1 len fk)
  show ?case
  proof (cases "2 \<le> len")
    case True
    with 1 show ?thesis
      by (subst ntt_layers.simps) (simp add: ntt_layer_inv del: ntt_layers.simps)
  next
    case False
    with 1 show ?thesis
      by (subst ntt_layers.simps) (simp del: ntt_layers.simps)
  qed
qed


lemma ntt_range:
  "coeffs_inv 256 f \<Longrightarrow> \<exists>g. ntt f = Inr g \<and> coeffs_inv 256 g"
  using ntt_layers_inv [of 256 "(f, 1)" 128]
  by (simp add: ntt_def coeffs_inv_def del: ntt_layers.simps)

lemma ntt_inv_butterfly_inv: "coeffs_inv n f \<Longrightarrow> coeffs_inv n (ntt_inv_butterfly z L f j)"
  by (simp add: ntt_inv_butterfly_def Let_def coeffs_inv_update)

lemma ntt_inv_block_inv:
  "coeffs_inv n f \<Longrightarrow> coeffs_inv n (fold (\<lambda>j f. ntt_inv_butterfly z L f j) js f)"
  by (induction js arbitrary: f) (simp_all add: ntt_inv_butterfly_inv)

lemma ntt_inv_blocks_inv:
  "coeffs_inv n (fst fk) \<Longrightarrow>
     coeffs_inv n (fst (fold (\<lambda>start (f, k).
        (fold (\<lambda>j f. ntt_inv_butterfly (ZETA_PRECOMP_INV ! k) L f j) [start..<start + L] f, k - 1))
        starts fk))"
  by (induction starts arbitrary: fk) (simp_all add: split_beta ntt_inv_block_inv)

lemma ntt_inv_layer_inv: "coeffs_inv n (fst fk) \<Longrightarrow> coeffs_inv n (fst (ntt_inv_layer L fk))"
  unfolding ntt_inv_layer_def by (rule ntt_inv_blocks_inv)

lemma ntt_inv_layers_inv:
  "coeffs_inv n (fst fk) \<Longrightarrow> coeffs_inv n (fst (ntt_inv_layers L fk))"
proof (induction L fk rule: ntt_inv_layers.induct)
  case (1 len fk)
  show ?case
  proof (cases "0 < len \<and> len \<le> 128")
    case True
    with 1 show ?thesis
      by (subst ntt_inv_layers.simps) (simp add: ntt_inv_layer_inv del: ntt_inv_layers.simps)
  next
    case False
    with 1 show ?thesis
      by (subst ntt_inv_layers.simps) (auto simp del: ntt_inv_layers.simps)
  qed
qed

lemma ntt_inv_range:
  assumes "coeffs_inv 256 f"
  shows "\<exists>g. ntt_inv f = Inr g \<and> coeffs_inv 256 g"
proof -
  from ntt_inv_layers_inv [of 256 "(f, 127)" 2] assms
  have "length (fst (ntt_inv_layers 2 (f, 127))) = 256"
    by (simp add: coeffs_inv_def del: ntt_inv_layers.simps)
  with assms show ?thesis
    by (simp add: ntt_inv_def coeffs_inv_def Let_def mod_Q_range del: ntt_inv_layers.simps)
qed

lemma multiply_fold_inv:
  "coeffs_inv n h \<Longrightarrow>
     coeffs_inv n (fold (\<lambda>i h_hat.
                  let gamma = GAMMA_PRECOMP ! i;
                      (h0, h1) = base_case_multiply (f ! (2 * i)) (f ! (2 * i + 1))
                                   (g ! (2 * i)) (g ! (2 * i + 1)) gamma
                  in (h_hat[2 * i := h0])[2 * i + 1 := h1]) is h)"
  by (induction "is" arbitrary: h)
     (simp_all add: base_case_multiply_def Let_def coeffs_inv_update)

lemma coeffs_inv_zero: "coeffs_inv n (replicate n 0)"
  by (simp add: coeffs_inv_def Q_def)

lemma multiply_ntts_range:
  assumes "256 \<le> length f" and "256 \<le> length g"
  shows "\<exists>r. multiply_ntts f g = Inr r \<and> coeffs_inv 256 r"
  using assms multiply_fold_inv [OF coeffs_inv_zero [of 256], of f g "[0..<128]"]
  by (simp add: multiply_ntts_def N_def del: upt_rec_numeral)

lemma poly_add_range:
  "coeffs_inv (min (length a) (length b)) (poly_add a b)"
  by (auto simp: poly_add_def coeffs_inv_def mod_Q_range)

lemma int_div_less:
  assumes "(a::int) < c * b" and "0 < b"
  shows "a div b < c"
proof -
  have "b * (a div b) + a mod b = a" by simp
  moreover have "0 \<le> a mod b" using assms(2) by simp
  ultimately have "b * (a div b) \<le> a" by linarith
  with assms(1) have "b * (a div b) < b * c" by (simp add: mult.commute)
  with assms(2) show ?thesis by (simp add: mult_less_cancel_left_pos)
qed

lemma decompress_range:
  assumes "1 \<le> d" and "d \<le> 11" and "0 \<le> y" and "y < 2 ^ d"
  shows "\<exists>x. decompress y d = Inr x \<and> 0 \<le> x \<and> x < Q"
proof -
  define p :: int where "p = 2 ^ (d - 1)"
  have d: "(2::int) ^ d = 2 * p"
    using assms(1) unfolding p_def by (cases d) auto
  have "(2::int) ^ (d - 1) \<le> 2 ^ 10"
    using assms(2) by (intro power_increasing) auto
  then have p: "0 < p" "p \<le> 1024" by (auto simp: p_def)
  have "y * 3329 \<le> (2 * p - 1) * 3329"
    using assms(4) d by (intro mult_right_mono) auto
  then have "y * 3329 + p < 3329 * (2 * p)"
    using p by (simp add: algebra_simps)
  then have "(y * 3329 + p) div (2 * p) < 3329"
    using p by (intro int_div_less) auto
  moreover have "0 \<le> (y * 3329 + p) div (2 * p)"
    using p assms(3) by (intro pos_imp_zdiv_nonneg_iff [THEN iffD2]) auto
  ultimately show ?thesis
    using assms(1,2) by (simp add: decompress_def Q_def drop_bit_eq_div push_bit_eq_mult d p_def)
qed

text \<open>
  Claim C6, as stated, fails for \<open>decompress\<close>: the input 2 lies in \<open>[0, 3329)\<close>, and with
  \<open>d = 1\<close> the output is 3329, which does not.
\<close>

theorem decompress_leaves_range:
  "(0::int) \<le> 2 \<and> (2::int) < Q \<and> decompress 2 1 = Inr 3329 \<and> \<not> (3329 < Q)"
  by (simp add: decompress_def Q_def drop_bit_eq_div push_bit_eq_mult)

text \<open>
  Claim C6, amended. On ring elements of 256 coefficients in \<open>[0, 3329)\<close>, the results of
  \<open>ntt\<close>, \<open>ntt_inv\<close>, \<open>multiply_ntts\<close> and \<open>poly_add\<close> are again 256 coefficients in
  \<open>[0, 3329)\<close>; and for \<open>d\<close> in \<open>[1, 11]\<close> the result of \<open>decompress\<close> on a \<open>d\<close>-bit value, that
  is on \<open>y\<close> in \<open>[0, 2^d)\<close>, lies in \<open>[0, 3329)\<close>.
\<close>

theorem arithmetic_preserves_range:
  assumes "length f = 256" and "\<forall>x\<in>set f. 0 \<le> x \<and> x < Q"
    and "length g = 256" and "\<forall>x\<in>set g. 0 \<le> x \<and> x < Q"
    and "1 \<le> d" and "d \<le> 11" and "0 \<le> y" and "y < 2 ^ d"
  shows "(\<exists>r. ntt f = Inr r \<and> length r = 256 \<and> (\<forall>x\<in>set r. 0 \<le> x \<and> x < Q))
       \<and> (\<exists>r. ntt_inv f = Inr r \<and> length r = 256 \<and> (\<forall>x\<in>set r. 0 \<le> x \<and> x < Q))
       \<and> (\<exists>r. multiply_ntts f g = Inr r \<and> length r = 256 \<and> (\<forall>x\<in>set r. 0 \<le> x \<and> x < Q))
       \<and> (length (poly_add f g) = 256 \<and> (\<forall>x\<in>set (poly_add f g). 0 \<le> x \<and> x < Q))
       \<and> (\<exists>x. decompress y d = Inr x \<and> 0 \<le> x \<and> x < Q)"
proof -
  have f: "coeffs_inv 256 f" using assms(1,2) by (simp add: coeffs_inv_def)
  have 1: "\<exists>r. ntt f = Inr r \<and> length r = 256 \<and> (\<forall>x\<in>set r. 0 \<le> x \<and> x < Q)"
    using ntt_range [OF f] by (simp add: coeffs_inv_def)
  have 2: "\<exists>r. ntt_inv f = Inr r \<and> length r = 256 \<and> (\<forall>x\<in>set r. 0 \<le> x \<and> x < Q)"
    using ntt_inv_range [OF f] by (simp add: coeffs_inv_def)
  have 3: "\<exists>r. multiply_ntts f g = Inr r \<and> length r = 256 \<and> (\<forall>x\<in>set r. 0 \<le> x \<and> x < Q)"
    using multiply_ntts_range [of f g] assms(1,3) by (simp add: coeffs_inv_def)
  have 4: "length (poly_add f g) = 256 \<and> (\<forall>x\<in>set (poly_add f g). 0 \<le> x \<and> x < Q)"
    using poly_add_range [of f g] assms(1,3) by (simp add: coeffs_inv_def)
  from 1 2 3 4 decompress_range [OF assms(5-8)] show ?thesis by blast
qed

theorem arithmetic_preserves_range_witness:
  "length (replicate 256 (7::int)) = 256
   \<and> (1::nat) \<le> 10 \<and> (10::nat) \<le> 11 \<and> (0::int) \<le> 1000 \<and> (1000::int) < 2 ^ 10
   \<and> (\<exists>r. ntt (replicate 256 7) = Inr r \<and> length r = 256)
   \<and> (\<exists>r. ntt_inv (replicate 256 7) = Inr r \<and> length r = 256)
   \<and> (\<exists>r. multiply_ntts (replicate 256 7) (replicate 256 7) = Inr r \<and> length r = 256)
   \<and> length (poly_add (replicate 256 7) (replicate 256 7)) = 256
   \<and> (\<exists>x. decompress 1000 10 = Inr x \<and> 0 \<le> x \<and> x < Q)"
proof -
  have a: "length (replicate 256 (7::int)) = 256" by simp
  have b: "\<forall>x\<in>set (replicate 256 (7::int)). 0 \<le> x \<and> x < Q" by (simp add: Q_def)
  have c: "(1::nat) \<le> 10" "(10::nat) \<le> 11" "(0::int) \<le> 1000" "(1000::int) < 2 ^ 10" by simp_all
  from arithmetic_preserves_range [OF a b a b c] a c show ?thesis by blast
qed


section \<open>The transforms as block operations\<close>

lemma ntt_block_length [simp]:
  "length (fold (\<lambda>j f. ntt_butterfly z len f j) js f) = length f"
  by (induction js arbitrary: f) (simp_all add: ntt_butterfly_def Let_def)

lemma ntt_block_nth:
  assumes "s + len + m \<le> length f" and "m \<le> len" and "i < length f"
  shows "fold (\<lambda>j f. ntt_butterfly z len f j) [s..<s + m] f ! i =
     (if s \<le> i \<and> i < s + m then (f ! i + (z * f ! (i + len)) mod Q) mod Q
      else if s + len \<le> i \<and> i < s + len + m then (f ! (i - len) - (z * f ! i) mod Q) mod Q
      else f ! i)"
  using assms
proof (induction m arbitrary: i)
  case 0
  then show ?case by simp
next
  case (Suc m)
  define g where "g = fold (\<lambda>j f. ntt_butterfly z len f j) [s..<s + m] f"
  have lg: "length g = length f" by (simp add: g_def)
  have IH: "g ! i = (if s \<le> i \<and> i < s + m then (f ! i + (z * f ! (i + len)) mod Q) mod Q
      else if s + len \<le> i \<and> i < s + len + m then (f ! (i - len) - (z * f ! i) mod Q) mod Q
      else f ! i)" if "i < length f" for i
    unfolding g_def using Suc.prems that by (intro Suc.IH) auto
  have g1: "g ! (s + m) = f ! (s + m)"
    using Suc.prems by (subst IH) auto
  have g2: "g ! (s + m + len) = f ! (s + m + len)"
    using Suc.prems by (subst IH) auto
  have step: "fold (\<lambda>j f. ntt_butterfly z len f j) [s..<s + Suc m] f
                = ntt_butterfly z len g (s + m)"
    by (simp add: g_def)
  have "ntt_butterfly z len g (s + m) ! i =
     (if i = s + m then (f ! (s + m) + (z * f ! (s + m + len)) mod Q) mod Q
      else if i = s + m + len then (f ! (s + m) - (z * f ! (s + m + len)) mod Q) mod Q
      else g ! i)"
    using Suc.prems lg g1 g2 by (auto simp: ntt_butterfly_def Let_def nth_list_update)
  then show ?case
    unfolding step using Suc.prems IH [of i]
    by (auto simp: add.assoc add.commute add.left_commute)
qed


lemma ntt_block_list:
  assumes hl: "length hi = length lo"
  shows "fold (\<lambda>j f. ntt_butterfly z (length lo) f j) [length pre..<length pre + length lo]
             (pre @ lo @ hi @ post)
           = pre @ map2 (\<lambda>a t. (a + t) mod Q) lo (map (\<lambda>b. (z * b) mod Q) hi)
                 @ map2 (\<lambda>a t. (a - t) mod Q) lo (map (\<lambda>b. (z * b) mod Q) hi) @ post"
    (is "?l = ?r")
proof (rule nth_equalityI)
  show "length ?l = length ?r" using assms by simp
next
  fix i assume "i < length ?l"
  then have i: "i < length (pre @ lo @ hi @ post)" by simp
  let ?s = "length pre" and ?n = "length lo" and ?f = "pre @ lo @ hi @ post"
  have l: "?l ! i =
     (if ?s \<le> i \<and> i < ?s + ?n then (?f ! i + (z * ?f ! (i + ?n)) mod Q) mod Q
      else if ?s + ?n \<le> i \<and> i < ?s + ?n + ?n then (?f ! (i - ?n) - (z * ?f ! i) mod Q) mod Q
      else ?f ! i)"
    using assms i by (intro ntt_block_nth) auto
  consider "i < ?s" | "?s \<le> i" "i < ?s + ?n" | "?s + ?n \<le> i" "i < ?s + ?n + ?n"
    | "?s + ?n + ?n \<le> i" by linarith
  then show "?l ! i = ?r ! i"
  proof cases
    case 1
    then show ?thesis unfolding l by (simp add: nth_append)
  next
    case 2
    then obtain j where j: "i = ?s + j" "j < ?n"
      by (metis add_diff_inverse_nat nat_add_left_cancel_less not_le)
    have a: "?f ! i = lo ! j"
      unfolding j(1) using j(2) by (simp add: nth_append)
    have "?f ! (?s + (?n + j)) = hi ! j"
      using j(2) hl by (simp add: nth_append del: append_assoc)
    then have b: "?f ! (i + ?n) = hi ! j"
      unfolding j(1) by (simp add: add.commute add.left_commute)
    have "?r ! i = (lo ! j + (z * hi ! j) mod Q) mod Q"
      unfolding j(1) using j(2) hl by (simp add: nth_append)
    then show ?thesis unfolding l a b using 2 by simp
  next
    case 3
    then obtain j where j: "i = ?s + (?n + j)" "j < ?n"
      by (metis add.assoc add_diff_inverse_nat nat_add_left_cancel_less not_le)
    have "i - ?n = ?s + j" unfolding j(1) by simp
    then have a: "?f ! (i - ?n) = lo ! j"
      using j(2) by (simp add: nth_append)
    have b: "?f ! i = hi ! j"
      unfolding j(1) using j(2) hl by (simp add: nth_append)
    have "?r ! i = (lo ! j - (z * hi ! j) mod Q) mod Q"
      unfolding j(1) using j(2) hl by (simp add: nth_append)
    then show ?thesis unfolding l a b using 3 by simp
  next
    case 4
    then obtain j where j: "i = ?s + (?n + (?n + j))"
      by (metis add.assoc le_Suc_ex)
    have "?f ! i = post ! j"
      unfolding j using hl by (simp add: nth_append)
    moreover have "?r ! i = post ! j"
      unfolding j using hl by (simp add: nth_append)
    ultimately show ?thesis unfolding l using 4 by simp
  qed
qed

lemma ntt_blocks_length [simp]:
  "2 * len * n \<le> length f \<Longrightarrow> length (ntt_blocks len k n f) = length f"
  by (induction n arbitrary: f k) (auto simp: Let_def)

lemma ntt_layer_blocks_aux:
  assumes "length pre = off" and "2 * len * n \<le> length f"
  shows "fold (\<lambda>start (f, k).
             (fold (\<lambda>j f. ntt_butterfly (ZETA_PRECOMP ! k) len f j) [start..<start + len] f,
              k + 1))
          (map (\<lambda>b. off + b * (2 * len)) [0..<n]) (pre @ f, k)
        = (pre @ ntt_blocks len k n f, k + n)"
  using assms
proof (induction n arbitrary: pre off f k)
  case 0
  then show ?case by simp
next
  case (Suc n)
  define lo where "lo = take len f"
  define hi where "hi = take len (drop len f)"
  define post where "post = drop (2 * len) f"
  have len: "2 * len \<le> length f" using Suc.prems(2) by simp
  have f: "f = lo @ hi @ post"
    unfolding lo_def hi_def post_def
    by (metis append_take_drop_id drop_drop mult_2)
  have ll: "length lo = len" "length hi = len"
    using len by (auto simp: lo_def hi_def)
  define lo' where "lo' = map2 (\<lambda>a t. (a + t) mod Q) lo (map (\<lambda>b. (ZETA_PRECOMP ! k * b) mod Q) hi)"
  define hi' where "hi' = map2 (\<lambda>a t. (a - t) mod Q) lo (map (\<lambda>b. (ZETA_PRECOMP ! k * b) mod Q) hi)"
  have l': "length lo' = len" "length hi' = len"
    using ll by (auto simp: lo'_def hi'_def)
  have blk: "fold (\<lambda>j f. ntt_butterfly (ZETA_PRECOMP ! k) len f j) [off..<off + len] (pre @ f)
               = (pre @ lo' @ hi') @ post"
    unfolding f lo'_def hi'_def
    using ntt_block_list [of hi lo "ZETA_PRECOMP ! k" pre post] ll Suc.prems(1)
    by simp
  have starts: "map (\<lambda>b. off + b * (2 * len)) [0..<Suc n]
                  = off # map (\<lambda>b. (off + 2 * len) + b * (2 * len)) [0..<n]"
    by (simp add: upt_conv_Cons map_Suc_upt [symmetric] del: upt_Suc)
  have "length (pre @ lo' @ hi') = off + 2 * len"
    using Suc.prems(1) l' by simp
  moreover have "2 * len * n \<le> length post"
    using Suc.prems(2) by (simp add: post_def)
  ultimately have IH: "fold (\<lambda>start (f, k).
             (fold (\<lambda>j f. ntt_butterfly (ZETA_PRECOMP ! k) len f j) [start..<start + len] f,
              k + 1))
          (map (\<lambda>b. (off + 2 * len) + b * (2 * len)) [0..<n]) ((pre @ lo' @ hi') @ post, k + 1)
        = ((pre @ lo' @ hi') @ ntt_blocks len (k + 1) n post, k + 1 + n)"
    by (rule Suc.IH)
  have "ntt_blocks len k (Suc n) f = lo' @ hi' @ ntt_blocks len (k + 1) n post"
    by (simp add: Let_def lo'_def hi'_def lo_def hi_def post_def)
  then show ?case
    unfolding starts using blk IH by simp
qed

lemma ntt_layer_blocks:
  assumes "length f = 256" and "2 * len * n = 256" and "(255 + 2 * len) div (2 * len) = n"
  shows "ntt_layer len (f, k) = (ntt_blocks len k n f, k + n)"
proof -
  have "range_step N (2 * len) = map (\<lambda>b. 0 + b * (2 * len)) [0..<n]"
    using assms(3) by (simp add: range_step_def N_def)
  then show ?thesis
    unfolding ntt_layer_def
    using ntt_layer_blocks_aux [of "[]" 0 len n f k] assms(1,2) by simp
qed

lemma ntt_eq_fun:
  assumes "length f = 256"
  shows "ntt f = Inr (ntt_fun f)"
proof -
  note [simp del] = ntt_blocks.simps
  define f1 where "f1 = ntt_blocks 128 1 1 f"
  define f2 where "f2 = ntt_blocks 64 2 2 f1"
  define f3 where "f3 = ntt_blocks 32 4 4 f2"
  define f4 where "f4 = ntt_blocks 16 8 8 f3"
  define f5 where "f5 = ntt_blocks 8 16 16 f4"
  define f6 where "f6 = ntt_blocks 4 32 32 f5"
  have l: "length f1 = 256" "length f2 = 256" "length f3 = 256" "length f4 = 256"
      "length f5 = 256" "length f6 = 256"
    using assms by (simp_all add: f1_def f2_def f3_def f4_def f5_def f6_def)
  have "ntt_layer 128 (f, 1) = (f1, 2)"
    using ntt_layer_blocks [of f 128 1 1] assms by (simp add: f1_def)
  moreover have "ntt_layer 64 (f1, 2) = (f2, 4)"
    using ntt_layer_blocks [of f1 64 2 2] l by (simp add: f2_def)
  moreover have "ntt_layer 32 (f2, 4) = (f3, 8)"
    using ntt_layer_blocks [of f2 32 4 4] l by (simp add: f3_def)
  moreover have "ntt_layer 16 (f3, 8) = (f4, 16)"
    using ntt_layer_blocks [of f3 16 8 8] l by (simp add: f4_def)
  moreover have "ntt_layer 8 (f4, 16) = (f5, 32)"
    using ntt_layer_blocks [of f4 8 16 16] l by (simp add: f5_def)
  moreover have "ntt_layer 4 (f5, 32) = (f6, 64)"
    using ntt_layer_blocks [of f5 4 32 32] l by (simp add: f6_def)
  moreover have "ntt_layer 2 (f6, 64) = (ntt_blocks 2 64 64 f6, 128)"
    using ntt_layer_blocks [of f6 2 64 64] l by simp
  ultimately have "ntt_layers 128 (f, 1) = (ntt_blocks 2 64 64 f6, 128)"
    by simp
  then show ?thesis
    using assms unfolding ntt_def ntt_fun_def f1_def f2_def f3_def f4_def f5_def f6_def
    by simp
qed

lemma ntt_delta_128:
  "ntt_fun (replicate 128 0 @ [1] @ replicate 127 0)
     = concat (replicate 64 [1729, 0]) @ concat (replicate 64 [1600, 0])"
  by code_simp

lemma ntt_inv_block_length [simp]:
  "length (fold (\<lambda>j f. ntt_inv_butterfly z len f j) js f) = length f"
  by (induction js arbitrary: f) (simp_all add: ntt_inv_butterfly_def Let_def)

lemma ntt_inv_block_nth:
  assumes "s + len + m \<le> length f" and "m \<le> len" and "i < length f"
  shows "fold (\<lambda>j f. ntt_inv_butterfly z len f j) [s..<s + m] f ! i =
     (if s \<le> i \<and> i < s + m then (f ! i + f ! (i + len)) mod Q
      else if s + len \<le> i \<and> i < s + len + m
        then (z * ((f ! i - f ! (i - len)) mod Q)) mod Q
      else f ! i)"
  using assms
proof (induction m arbitrary: i)
  case 0
  then show ?case by simp
next
  case (Suc m)
  define g where "g = fold (\<lambda>j f. ntt_inv_butterfly z len f j) [s..<s + m] f"
  have lg: "length g = length f" by (simp add: g_def)
  have IH: "g ! i = (if s \<le> i \<and> i < s + m then (f ! i + f ! (i + len)) mod Q
      else if s + len \<le> i \<and> i < s + len + m
        then (z * ((f ! i - f ! (i - len)) mod Q)) mod Q
      else f ! i)" if "i < length f" for i
    unfolding g_def using Suc.prems that by (intro Suc.IH) auto
  have g1: "g ! (s + m) = f ! (s + m)"
    using Suc.prems by (subst IH) auto
  have g2: "g ! (s + m + len) = f ! (s + m + len)"
    using Suc.prems by (subst IH) auto
  have step: "fold (\<lambda>j f. ntt_inv_butterfly z len f j) [s..<s + Suc m] f
                = ntt_inv_butterfly z len g (s + m)"
    by (simp add: g_def)
  have "ntt_inv_butterfly z len g (s + m) ! i =
     (if i = s + m then (f ! (s + m) + f ! (s + m + len)) mod Q
      else if i = s + m + len
        then (z * ((f ! (s + m + len) - f ! (s + m)) mod Q)) mod Q
      else g ! i)"
    using Suc.prems lg g1 g2 by (auto simp: ntt_inv_butterfly_def Let_def nth_list_update)
  then show ?case
    unfolding step using Suc.prems IH [of i]
    by (auto simp: add.assoc add.commute add.left_commute)
qed

lemma ntt_inv_block_list:
  assumes hl: "length hi = length lo"
  shows "fold (\<lambda>j f. ntt_inv_butterfly z (length lo) f j)
             [length pre..<length pre + length lo] (pre @ lo @ hi @ post)
           = pre @ map2 (\<lambda>a b. (a + b) mod Q) lo hi
                 @ map2 (\<lambda>a b. (z * ((b - a) mod Q)) mod Q) lo hi @ post"
    (is "?l = ?r")
proof (rule nth_equalityI)
  show "length ?l = length ?r" using assms by simp
next
  fix i assume "i < length ?l"
  then have i: "i < length (pre @ lo @ hi @ post)" by simp
  let ?s = "length pre" and ?n = "length lo" and ?f = "pre @ lo @ hi @ post"
  have l: "?l ! i =
     (if ?s \<le> i \<and> i < ?s + ?n then (?f ! i + ?f ! (i + ?n)) mod Q
      else if ?s + ?n \<le> i \<and> i < ?s + ?n + ?n
        then (z * ((?f ! i - ?f ! (i - ?n)) mod Q)) mod Q
      else ?f ! i)"
    using assms i by (intro ntt_inv_block_nth) auto
  consider "i < ?s" | "?s \<le> i" "i < ?s + ?n" | "?s + ?n \<le> i" "i < ?s + ?n + ?n"
    | "?s + ?n + ?n \<le> i" by linarith
  then show "?l ! i = ?r ! i"
  proof cases
    case 1
    then show ?thesis unfolding l by (simp add: nth_append)
  next
    case 2
    then obtain j where j: "i = ?s + j" "j < ?n"
      by (metis add_diff_inverse_nat nat_add_left_cancel_less not_le)
    have a: "?f ! i = lo ! j"
      unfolding j(1) using j(2) by (simp add: nth_append)
    have "?f ! (?s + (?n + j)) = hi ! j"
      using j(2) hl by (simp add: nth_append del: append_assoc)
    then have b: "?f ! (i + ?n) = hi ! j"
      unfolding j(1) by (simp add: add.commute add.left_commute)
    have "?r ! i = (lo ! j + hi ! j) mod Q"
      unfolding j(1) using j(2) hl by (simp add: nth_append)
    then show ?thesis unfolding l a b using 2 by simp
  next
    case 3
    then obtain j where j: "i = ?s + (?n + j)" "j < ?n"
      by (metis add.assoc add_diff_inverse_nat nat_add_left_cancel_less not_le)
    have "i - ?n = ?s + j" unfolding j(1) by simp
    then have a: "?f ! (i - ?n) = lo ! j"
      using j(2) by (simp add: nth_append)
    have b: "?f ! i = hi ! j"
      unfolding j(1) using j(2) hl by (simp add: nth_append)
    have "?r ! i = (z * ((hi ! j - lo ! j) mod Q)) mod Q"
      unfolding j(1) using j(2) hl by (simp add: nth_append)
    then show ?thesis unfolding l a b using 3 by simp
  next
    case 4
    then obtain j where j: "i = ?s + (?n + (?n + j))"
      by (metis add.assoc le_Suc_ex)
    have "?f ! i = post ! j"
      unfolding j using hl by (simp add: nth_append)
    moreover have "?r ! i = post ! j"
      unfolding j using hl by (simp add: nth_append)
    ultimately show ?thesis unfolding l using 4 by simp
  qed
qed

lemma ntt_inv_blocks_length [simp]:
  "2 * len * n \<le> length f \<Longrightarrow> length (ntt_inv_blocks len k n f) = length f"
  by (induction n arbitrary: f k) (auto simp: Let_def)

lemma ntt_inv_layer_blocks_aux:
  assumes "length pre = off" and "2 * len * n \<le> length f"
  shows "fold (\<lambda>start (f, k).
             (fold (\<lambda>j f. ntt_inv_butterfly (ZETA_PRECOMP_INV ! k) len f j)
                   [start..<start + len] f,
              k - 1))
          (map (\<lambda>b. off + b * (2 * len)) [0..<n]) (pre @ f, k)
        = (pre @ ntt_inv_blocks len k n f, k - n)"
  using assms
proof (induction n arbitrary: pre off f k)
  case 0
  then show ?case by simp
next
  case (Suc n)
  define lo where "lo = take len f"
  define hi where "hi = take len (drop len f)"
  define post where "post = drop (2 * len) f"
  have len: "2 * len \<le> length f" using Suc.prems(2) by simp
  have f: "f = lo @ hi @ post"
    unfolding lo_def hi_def post_def
    by (metis append_take_drop_id drop_drop mult_2)
  have ll: "length lo = len" "length hi = len"
    using len by (auto simp: lo_def hi_def)
  define lo' where "lo' = map2 (\<lambda>a b. (a + b) mod Q) lo hi"
  define hi' where "hi' = map2 (\<lambda>a b. (ZETA_PRECOMP_INV ! k * ((b - a) mod Q)) mod Q) lo hi"
  have l': "length lo' = len" "length hi' = len"
    using ll by (auto simp: lo'_def hi'_def)
  have blk: "fold (\<lambda>j f. ntt_inv_butterfly (ZETA_PRECOMP_INV ! k) len f j)
               [off..<off + len] (pre @ f) = (pre @ lo' @ hi') @ post"
    unfolding f lo'_def hi'_def
    using ntt_inv_block_list [of hi lo "ZETA_PRECOMP_INV ! k" pre post] ll Suc.prems(1)
    by simp
  have starts: "map (\<lambda>b. off + b * (2 * len)) [0..<Suc n]
                  = off # map (\<lambda>b. (off + 2 * len) + b * (2 * len)) [0..<n]"
    by (simp add: upt_conv_Cons map_Suc_upt [symmetric] del: upt_Suc)
  have "length (pre @ lo' @ hi') = off + 2 * len"
    using Suc.prems(1) l' by simp
  moreover have "2 * len * n \<le> length post"
    using Suc.prems(2) by (simp add: post_def)
  ultimately have IH: "fold (\<lambda>start (f, k).
             (fold (\<lambda>j f. ntt_inv_butterfly (ZETA_PRECOMP_INV ! k) len f j)
                   [start..<start + len] f,
              k - 1))
          (map (\<lambda>b. (off + 2 * len) + b * (2 * len)) [0..<n]) ((pre @ lo' @ hi') @ post, k - 1)
        = ((pre @ lo' @ hi') @ ntt_inv_blocks len (k - 1) n post, k - 1 - n)"
    by (rule Suc.IH)
  have "ntt_inv_blocks len k (Suc n) f = lo' @ hi' @ ntt_inv_blocks len (k - 1) n post"
    by (simp add: Let_def lo'_def hi'_def lo_def hi_def post_def)
  then show ?case
    unfolding starts using blk IH by simp
qed

lemma ntt_inv_layer_blocks:
  assumes "length f = 256" and "2 * len * n = 256" and "(255 + 2 * len) div (2 * len) = n"
  shows "ntt_inv_layer len (f, k) = (ntt_inv_blocks len k n f, k - n)"
proof -
  have "range_step N (2 * len) = map (\<lambda>b. 0 + b * (2 * len)) [0..<n]"
    using assms(3) by (simp add: range_step_def N_def)
  then show ?thesis
    unfolding ntt_inv_layer_def
    using ntt_inv_layer_blocks_aux [of "[]" 0 len n f k] assms(1,2) by simp
qed

lemma ntt_inv_eq_fun:
  assumes "length f = 256"
  shows "ntt_inv f = Inr (ntt_inv_fun f)"
proof -
  note [simp del] = ntt_inv_blocks.simps
  define f1 where "f1 = ntt_inv_blocks 2 127 64 f"
  define f2 where "f2 = ntt_inv_blocks 4 63 32 f1"
  define f3 where "f3 = ntt_inv_blocks 8 31 16 f2"
  define f4 where "f4 = ntt_inv_blocks 16 15 8 f3"
  define f5 where "f5 = ntt_inv_blocks 32 7 4 f4"
  define f6 where "f6 = ntt_inv_blocks 64 3 2 f5"
  have l: "length f1 = 256" "length f2 = 256" "length f3 = 256" "length f4 = 256"
      "length f5 = 256" "length f6 = 256"
    using assms by (simp_all add: f1_def f2_def f3_def f4_def f5_def f6_def)
  have "ntt_inv_layer 2 (f, 127) = (f1, 63)"
    using ntt_inv_layer_blocks [of f 2 64 127] assms by (simp add: f1_def)
  moreover have "ntt_inv_layer 4 (f1, 63) = (f2, 31)"
    using ntt_inv_layer_blocks [of f1 4 32 63] l by (simp add: f2_def)
  moreover have "ntt_inv_layer 8 (f2, 31) = (f3, 15)"
    using ntt_inv_layer_blocks [of f2 8 16 31] l by (simp add: f3_def)
  moreover have "ntt_inv_layer 16 (f3, 15) = (f4, 7)"
    using ntt_inv_layer_blocks [of f3 16 8 15] l by (simp add: f4_def)
  moreover have "ntt_inv_layer 32 (f4, 7) = (f5, 3)"
    using ntt_inv_layer_blocks [of f4 32 4 7] l by (simp add: f5_def)
  moreover have "ntt_inv_layer 64 (f5, 3) = (f6, 1)"
    using ntt_inv_layer_blocks [of f5 64 2 3] l by (simp add: f6_def)
  moreover have "ntt_inv_layer 128 (f6, 1) = (ntt_inv_blocks 128 1 1 f6, 0)"
    using ntt_inv_layer_blocks [of f6 128 1 1] l by simp
  ultimately have "ntt_inv_layers 2 (f, 127) = (ntt_inv_blocks 128 1 1 f6, 0)"
    by simp
  then show ?thesis
    using assms unfolding ntt_inv_def ntt_inv_fun_def f1_def f2_def f3_def f4_def f5_def f6_def
    by (simp add: Let_def)
qed

lemma ZETA_PRECOMP_INV_table [code]:
  "ZETA_PRECOMP_INV = [
    1, 1600, 40, 749, 2481, 1432, 2699, 687, 1583, 2760, 69, 543, 2532, 3136, 1410, 2267,
    2508, 1355, 450, 936, 447, 2794, 1235, 1903, 1996, 1089, 3273, 283, 1853, 1990, 882, 3033,
    2419, 2102, 219, 855, 2681, 1848, 712, 682, 927, 1795, 461, 1891, 2877, 2522, 1894, 1010,
    1414, 2009, 3296, 464, 2697, 816, 1352, 2679, 1274, 1052, 1025, 2132, 1573, 76, 2998, 3040,
    1175, 2444, 394, 1219, 2300, 1455, 2117, 1607, 2443, 554, 1179, 2186, 2303, 2926, 2237, 525,
    735, 863, 2768, 1230, 2572, 556, 3010, 2266, 1684, 1239, 780, 2954, 109, 1292, 1031, 1745,
    2688, 3061, 992, 2596, 941, 892, 1021, 2390, 642, 1868, 2377, 1482, 1540, 540, 1678, 1626,
    279, 314, 1173, 2573, 3096, 48, 667, 1920, 2229, 1041, 2606, 1692, 680, 2746, 568, 3312]"
  by code_simp

lemma ntt_inv_of_delta_128:
  "ntt_inv_fun (concat (replicate 64 [1729, 0]) @ concat (replicate 64 [1600, 0]))
     = replicate 128 0 @ [3328] @ replicate 127 0"
  by code_simp

lemma ZETA_PRECOMP_INV_inverse:
  "list_all2 (\<lambda>z zi. 0 \<le> zi \<and> zi < Q \<and> (z * zi) mod Q = 1) ZETA_PRECOMP ZETA_PRECOMP_INV"
  by code_simp

text \<open>
  Claim C5. The claim wants \<open>ntt_inv (ntt f) = f\<close> for every ring element. For the element
  whose only non-zero coefficient is \<open>f[128] = 1\<close>, \<open>ntt\<close> returns 1729 at the even indices below
  128 and 1600 at the even indices from 128 on, and \<open>ntt_inv\<close> of that returns \<open>3328\<close> (that is
  \<open>-1\<close> modulo \<open>q\<close>) at index 128, not 1.
\<close>

theorem ntt_inv_ntt_differs:
  "ntt (replicate 128 0 @ [1] @ replicate 127 0)
     = Inr (concat (replicate 64 [1729, 0]) @ concat (replicate 64 [1600, 0]))
   \<and> ntt_inv (concat (replicate 64 [1729, 0]) @ concat (replicate 64 [1600, 0]))
     = Inr (replicate 128 0 @ [3328] @ replicate 127 0)"
proof -
  have 1: "length (replicate 128 (0::int) @ [1] @ replicate 127 0) = 256"
    by simp
  have 2: "length (concat (replicate 64 [1729::int, 0]) @ concat (replicate 64 [1600, 0])) = 256"
    by code_simp
  show ?thesis
    using ntt_eq_fun [OF 1] ntt_inv_eq_fun [OF 2]
    by (simp only: ntt_delta_128 ntt_inv_of_delta_128)
qed


section \<open>Compression: the round-trip error\<close>

lemma and_mask_int: "(a::int) AND (push_bit d 1 - 1) = a mod 2 ^ d"
  by (simp add: push_bit_eq_mult flip: mask_eq_exp_minus_1 take_bit_eq_mask take_bit_eq_mod)

lemma compress_10: "compress x 10 = Inr ((x * 1024 div 3329) mod 1024)"
  using and_mask_int [of "x * 1024 div 3329" 10]
  by (simp add: compress_def Q_def push_bit_eq_mult)

lemma decompress_10: "decompress y 10 = Inr ((y * 3329 + 512) div 1024)"
  by (simp add: decompress_def Q_def push_bit_eq_mult drop_bit_eq_div)

text \<open>
  Claim C7. For every \<open>x\<close> in \<open>[0, 3329)\<close>, compressing to 10 bits and decompressing again
  succeeds with a result \<open>z\<close> in \<open>[0, 3329)\<close> that is at distance at most 5 from \<open>x\<close> modulo \<open>q\<close>
  (the smaller of the absolute difference and \<open>q\<close> minus it). The absolute difference itself
  is at most 5: \<open>z\<close> lies between \<open>x - 3\<close> and \<open>x\<close>.
\<close>

theorem compress_decompress_error:
  assumes "0 \<le> x" and "x < 3329"
  shows "\<exists>y z. compress x 10 = Inr y \<and> decompress y 10 = Inr z
            \<and> 0 \<le> z \<and> z < Q
            \<and> x - 3 \<le> z \<and> z \<le> x
            \<and> \<bar>z - x\<bar> \<le> 5
            \<and> min \<bar>z - x\<bar> (Q - \<bar>z - x\<bar>) \<le> 5"
proof -
  define y where "y = x * 1024 div 3329"
  define z where "z = (y * 3329 + 512) div 1024"
  have y0: "0 \<le> y" and y1: "y < 1024"
    using assms by (auto simp: y_def)
  have c: "compress x 10 = Inr y"
    using y0 y1 by (simp add: compress_10 y_def)
  have d: "decompress y 10 = Inr z"
    by (simp add: decompress_10 z_def)
  have lo: "x - 3 \<le> z" and hi: "z \<le> x"
    using assms unfolding z_def y_def by linarith+
  have z0: "0 \<le> z"
    using y0 by (simp add: z_def)
  have zq: "z < Q"
    using hi assms by (simp add: Q_def)
  have a: "\<bar>z - x\<bar> \<le> 5"
    using lo hi by simp
  then have m: "min \<bar>z - x\<bar> (Q - \<bar>z - x\<bar>) \<le> 5"
    by (simp add: Q_def)
  from c d z0 zq lo hi a m show ?thesis by blast
qed

theorem compress_decompress_error_witness:
  "(0::int) \<le> 2500 \<and> (2500::int) < 3329
   \<and> (\<exists>y z. compress 2500 10 = Inr y \<and> decompress y 10 = Inr z
          \<and> 0 \<le> z \<and> z < Q
          \<and> 2500 - 3 \<le> z \<and> z \<le> 2500
          \<and> \<bar>z - 2500\<bar> \<le> 5
          \<and> min \<bar>z - 2500\<bar> (Q - \<bar>z - 2500\<bar>) \<le> 5)"
  using compress_decompress_error [of 2500] by simp



section \<open>The compression parameter 12\<close>

lemma map_err_fail: "xs \<noteq> [] \<Longrightarrow> (\<And>x. f x = Inl e) \<Longrightarrow> map_err f xs = Inl e"
  by (cases xs) auto

lemma compress_12: "compress x 12 = Inl CompressParam"
  by (simp add: compress_def)

lemma decompress_12: "decompress y 12 = Inl CompressParam"
  by (simp add: decompress_def)

lemma sample_poly_cbd_range:
  "eta = 2 \<or> eta = 3 \<Longrightarrow> length B = 64 * eta \<Longrightarrow>
     \<exists>s. sample_poly_cbd eta B = Inr s \<and> coeffs_inv 256 s"
  by (auto simp: sample_poly_cbd_def Let_def coeffs_inv_def mod_Q_range)

lemma encode_message_range:
  "length m = 32 \<Longrightarrow> \<exists>p. encode_message m = Inr p \<and> coeffs_inv 256 p"
  by (auto simp: encode_message_def Let_def coeffs_inv_def mod_Q_range)

lemma multiply_ntts_short:
  "length f < 256 \<or> length g < 256 \<Longrightarrow> multiply_ntts f g = Inl IndexError"
  by (simp add: multiply_ntts_def)

lemma k_pke_encrypt_12:
  "k_pke_encrypt h (A, t_hat) m r 12 eta =
     Inl (if eta \<noteq> 2 \<and> eta \<noteq> 3 then EtaInvalid
          else if length r \<noteq> 32 then PrfSeedLength
          else if length A < 256 \<or> length t_hat < 256 then IndexError
          else if length m \<noteq> 32 then MessageLength
          else CompressParam)"
proof (cases "(eta = 2 \<or> eta = 3) \<and> length r = 32")
  case False
  then show ?thesis
    by (auto simp: k_pke_encrypt_def PRF_def bind_err_def)
next
  case True
  then have eta: "eta = 2 \<or> eta = 3" and r: "length r = 32" by auto
  obtain y where y: "sample_poly_cbd eta (shake256 h (r @ [0]) (64 * eta)) = Inr y"
      "coeffs_inv 256 y"
    using sample_poly_cbd_range [OF eta, of "shake256 h (r @ [0]) (64 * eta)"] by auto
  obtain e1 where e1: "sample_poly_cbd eta (shake256 h (r @ [1]) (64 * eta)) = Inr e1"
      "coeffs_inv 256 e1"
    using sample_poly_cbd_range [OF eta, of "shake256 h (r @ [1]) (64 * eta)"] by auto
  obtain e2 where e2: "sample_poly_cbd eta (shake256 h (r @ [2]) (64 * eta)) = Inr e2"
      "coeffs_inv 256 e2"
    using sample_poly_cbd_range [OF eta, of "shake256 h (r @ [2]) (64 * eta)"] by auto
  obtain y_hat where yh: "ntt y = Inr y_hat" "coeffs_inv 256 y_hat"
    using ntt_range [OF y(2)] by auto
  obtain e1_hat where e1h: "ntt e1 = Inr e1_hat" "coeffs_inv 256 e1_hat"
    using ntt_range [OF e1(2)] by auto
  obtain e2_hat where e2h: "ntt e2 = Inr e2_hat" "coeffs_inv 256 e2_hat"
    using ntt_range [OF e2(2)] by auto
  have prefix: "k_pke_encrypt h (A, t_hat) m r 12 eta =
      bind_err (multiply_ntts A y_hat) (\<lambda>A_times_y.
          let u_hat = poly_add A_times_y e1_hat
          in bind_err (multiply_ntts t_hat y_hat) (\<lambda>t_times_y.
               let v_hat0 = poly_add t_times_y e2_hat
               in bind_err (encode_message m) (\<lambda>m_poly.
                  bind_err (ntt m_poly) (\<lambda>m_hat.
                    let v_hat = poly_add v_hat0 m_hat
                    in bind_err (map_err (\<lambda>coeff. compress coeff 12) u_hat) (\<lambda>u_hat_compressed.
                       bind_err (byte_encode u_hat_compressed 12) (\<lambda>c1.
                       bind_err (map_err (\<lambda>coeff. compress coeff 12) v_hat) (\<lambda>v_hat_compressed.
                       bind_err (byte_encode v_hat_compressed 12) (\<lambda>c2.
                         Inr (c1 @ c2)))))))))"
    using eta r y(1) e1(1) e2(1) yh(1) e1h(1) e2h(1)
    by (simp add: k_pke_encrypt_def PRF_ok bind_err_def)
  show ?thesis
  proof (cases "length A < 256 \<or> length t_hat < 256")
    case short: True
    show ?thesis
    proof (cases "length A < 256")
      case True
      then show ?thesis
        using eta r unfolding prefix by (simp add: multiply_ntts_short bind_err_def)
    next
      case False
      then obtain ay where "multiply_ntts A y_hat = Inr ay"
        using multiply_ntts_range [of A y_hat] yh(2) by (auto simp: coeffs_inv_def)
      then show ?thesis
        using eta r short False unfolding prefix
        by (simp add: multiply_ntts_short bind_err_def Let_def)
    qed
  next
    case long: False
    obtain ay where ay: "multiply_ntts A y_hat = Inr ay" "coeffs_inv 256 ay"
      using multiply_ntts_range [of A y_hat] yh(2) long by (auto simp: coeffs_inv_def)
    obtain ty where ty: "multiply_ntts t_hat y_hat = Inr ty" "coeffs_inv 256 ty"
      using multiply_ntts_range [of t_hat y_hat] yh(2) long by (auto simp: coeffs_inv_def)
    show ?thesis
    proof (cases "length m = 32")
      case False
      then show ?thesis
        using eta r long ay(1) ty(1) unfolding prefix
        by (simp add: bind_err_def Let_def encode_message_def)
    next
      case True
      obtain mp where mp: "encode_message m = Inr mp" "coeffs_inv 256 mp"
        using encode_message_range [OF True] by auto
      obtain mh where mh: "ntt mp = Inr mh"
        using ntt_range [OF mp(2)] by auto
      have "poly_add ay e1_hat \<noteq> []"
        using poly_add_range [of ay e1_hat] ay(2) e1h(2) by (auto simp: coeffs_inv_def)
      then have "map_err (\<lambda>coeff. compress coeff 12) (poly_add ay e1_hat) = Inl CompressParam"
        by (rule map_err_fail) (rule compress_12)
      then show ?thesis
        using eta r long True ay(1) ty(1) mp(1) mh unfolding prefix
        by (simp add: bind_err_def Let_def)
    qed
  qed
qed

lemma k_pke_decrypt_12:
  "k_pke_decrypt dk c 12 = Inl (if length c = 768 then CompressParam else ByteLength)"
proof -
  obtain b_enc s1 s2 where dk: "dk = (b_enc, s1, s2)" by (cases dk) auto
  show ?thesis
  proof (cases "length c = 768")
    case True
    have 1: "byte_decode (take 384 c) 12
               = Inr (map (\<lambda>i. chunk_value (take 12 (drop (i * 12) (bytes_to_bits (take 384 c))))
                       mod Q) [0..<256])"
      using byte_decode_ok [of "take 384 c" 12] True by simp
    have 2: "byte_decode (drop 384 c) 12
               = Inr (map (\<lambda>i. chunk_value (take 12 (drop (i * 12) (bytes_to_bits (drop 384 c))))
                       mod Q) [0..<256])"
      using byte_decode_ok [of "drop 384 c" 12] True by simp
    have "map_err (\<lambda>y. decompress y 12)
            (map (\<lambda>i. chunk_value (take 12 (drop (i * 12) (bytes_to_bits (take 384 c))))
                       mod Q) [0..<256]) = Inl CompressParam"
      by (rule map_err_fail) (simp_all add: decompress_12 del: upt_rec_numeral)
    with True show ?thesis
      unfolding dk k_pke_decrypt_def by (simp add: 1 2 bind_err_def Let_def del: upt_rec_numeral)
  next
    case False
    show ?thesis
    proof (cases "length c < 384")
      case True
      then have "byte_decode (take 384 c) 12 = Inl ByteLength"
        by (simp add: byte_decode_def Let_def)
      with False show ?thesis
        unfolding dk k_pke_decrypt_def by (simp add: bind_err_def Let_def)
    next
      case ge: False
      have 1: "byte_decode (take 384 c) 12
               = Inr (map (\<lambda>i. chunk_value (take 12 (drop (i * 12) (bytes_to_bits (take 384 c))))
                       mod Q) [0..<256])"
        using byte_decode_ok [of "take 384 c" 12] ge by simp
      have "byte_decode (drop 384 c) 12 = Inl ByteLength"
        using False ge by (simp add: byte_decode_def Let_def)
      with False show ?thesis
        unfolding dk k_pke_decrypt_def by (simp add: 1 bind_err_def Let_def del: upt_rec_numeral)
    qed
  qed
qed

text \<open>
  Claim C10, as stated, fails: with valid \<open>eta\<close> and \<open>r\<close> and a key whose polynomials are empty
  lists, \<open>k_pke_encrypt\<close> fails in \<open>multiply_ntts\<close>, which reads \<open>f_hat[0]\<close> past the end of
  the list: the error is an IndexError, raised before \<open>compress\<close> is reached, and not a
  ValueError. (No step before \<open>multiply_ntts\<close> depends on what the hash functions return:
  \<open>k_pke_encrypt_12\<close> gives the same error for every hash library.)
\<close>

theorem d12_short_key_index_error:
  "k_pke_encrypt zero_seed_xof ([], []) (replicate 32 0) (replicate 32 0) 12 2 = Inl IndexError
   \<and> \<not> is_ValueError IndexError"
  by (simp add: k_pke_encrypt_12)

text \<open>
  Claim C10, amended. With the compression parameter \<open>d = 12\<close>, \<open>k_pke_encrypt\<close> and
  \<open>k_pke_decrypt\<close> fail for every input. The error of \<open>k_pke_decrypt\<close> is always a ValueError;
  the error of \<open>k_pke_encrypt\<close> is a ValueError except when \<open>eta\<close> and \<open>r\<close> are valid and one of
  the two polynomials of the key has fewer than 256 coefficients. When the arguments are
  valid (\<open>eta\<close> in \<open>{2, 3}\<close>, 32-byte \<open>r\<close> and \<open>m\<close>, key polynomials of at least 256 coefficients,
  a 768-byte ciphertext) the error is the one raised by \<open>compress\<close> and \<open>decompress\<close>, which
  reject every \<open>d\<close> outside \<open>[1, 11]\<close>.
\<close>

theorem d12_rejected:
  "(\<exists>e. k_pke_encrypt h (A, t_hat) m r 12 eta = Inl e
        \<and> (is_ValueError e \<longleftrightarrow>
             \<not> ((eta = 2 \<or> eta = 3) \<and> length r = 32
                 \<and> (length A < 256 \<or> length t_hat < 256)))
        \<and> ((eta = 2 \<or> eta = 3) \<and> length r = 32 \<and> length m = 32
             \<and> 256 \<le> length A \<and> 256 \<le> length t_hat \<longrightarrow> e = CompressParam))
   \<and> (\<exists>e. k_pke_decrypt dk c 12 = Inl e \<and> is_ValueError e
        \<and> (length c = 768 \<longrightarrow> e = CompressParam))"
  by (simp add: k_pke_encrypt_12 k_pke_decrypt_12)

theorem d12_rejected_witness:
  "((2::nat) = 2 \<or> (2::nat) = 3) \<and> length (replicate 32 (0::byte)) = 32
   \<and> (256::nat) \<le> length (replicate 256 (0::int))
   \<and> length (replicate 768 (0::byte)) = 768
   \<and> k_pke_encrypt zero_seed_xof (replicate 256 0, replicate 256 0)
        (replicate 32 0) (replicate 32 0) 12 2 = Inl CompressParam
   \<and> k_pke_decrypt ([], replicate 256 0, replicate 256 0) (replicate 768 0) 12
        = Inl CompressParam
   \<and> is_ValueError CompressParam"
  using d12_rejected [of zero_seed_xof "replicate 256 0" "replicate 256 0" "replicate 32 0"
      "replicate 32 0" 2 "([], replicate 256 0, replicate 256 0)" "replicate 768 0"]
  by simp



section \<open>Key generation, encapsulation and decapsulation at a concrete hash library\<close>

lemma sample_ntt_loop_accepts:
  assumes C: "shake128 h (ctx xof) 3 = [c0, c1, c2]"
    and d1: "uint c0 + 256 * (uint c1 AND 15) = d1" "d1 < Q"
    and d2: "drop_bit 4 (uint c1) + 16 * uint c2 = d2" "d2 < Q"
    and len: "length cs + 2 * n = 256"
  shows "sample_ntt_loop h xof cs = Some (Inr (cs @ concat (replicate n [d1, d2])))"
  using len
proof (induction n arbitrary: cs)
  case 0
  then show ?case by (subst sample_ntt_loop.simps) simp
next
  case (Suc n)
  then have "length (cs @ [d1, d2]) + 2 * n = 256" by simp
  from Suc.IH [OF this] Suc.prems C d1 d2 show ?case
    by (subst sample_ntt_loop.simps) (simp add: squeeze_def Let_def)
qed

lemma shake_toy [simp]:
  "shake128 toy_hashes data n = replicate n 0" "shake256 toy_hashes data n = replicate n 0"
  by (simp_all add: shake128_def shake256_def toy_hashes_def map_replicate_const)

lemma concat_pairs_zero: "concat (replicate n [0::int, 0]) = replicate (2 * n) 0"
  by (induction n) simp_all

lemma sample_ntt_toy:
  assumes "length B = 34"
  shows "sample_ntt toy_hashes B = Some (Inr (replicate 256 0))"
proof -
  have "shake128 toy_hashes (ctx (absorb XOF_init B)) 3 = [0, 0, 0]"
    by (simp add: numeral_3_eq_3)
  from sample_ntt_loop_accepts [OF this, of 0 0 "[]" 128] assms show ?thesis
    by (simp add: sample_ntt_def Q_def concat_pairs_zero)
qed

lemma bytes_to_bits_zeros: "bytes_to_bits (replicate n 0) = replicate (8 * n) 0"
proof -
  have "map (\<lambda>j. drop_bit j (0::int) AND 1) [0..<8] = replicate 8 0"
    by (simp add: map_replicate_const del: upt_rec_numeral)
  then show ?thesis
    by (simp add: bytes_to_bits_def concat_replicate_replicate mult.commute
          del: upt_rec_numeral)
qed

lemma sample_poly_cbd_zeros: "sample_poly_cbd 2 (replicate 128 0) = Inr (replicate 256 0)"
proof -
  have "map (\<lambda>i. let start = i * 2 * 2;
                     x_bits = take 2 (drop start (replicate 1024 (0::int)));
                     y_bits = take 2 (drop (start + 2) (replicate 1024 0));
                     x = sum_list x_bits; y = sum_list y_bits
                 in (x - y) mod Q) [0..<256] = map (\<lambda>i. 0) [0..<256]"
    by (intro map_cong) (simp_all add: Let_def sum_list_replicate)
  then show ?thesis
    by (simp add: sample_poly_cbd_def bytes_to_bits_zeros map_replicate_const
          del: upt_rec_numeral)
qed

lemma ntt_zeros: "ntt (replicate 256 0) = Inr (replicate 256 0)"
proof -
  have "ntt_fun (replicate 256 0) = replicate 256 0" by code_simp
  then show ?thesis using ntt_eq_fun [of "replicate 256 0"] by simp
qed

lemma ntt_inv_zeros: "ntt_inv (replicate 256 0) = Inr (replicate 256 0)"
proof -
  have "ntt_inv_fun (replicate 256 0) = replicate 256 0" by code_simp
  then show ?thesis using ntt_inv_eq_fun [of "replicate 256 0"] by simp
qed

lemma ntt_unit: "ntt (1 # replicate 255 0) = Inr (concat (replicate 128 [1, 0]))"
proof -
  have "ntt_fun (1 # replicate 255 0) = concat (replicate 128 [1, 0])" by code_simp
  then show ?thesis using ntt_eq_fun [of "1 # replicate 255 0"] by simp
qed

lemma replicate_update_same: "(replicate n x)[i := x] = replicate n x"
  by (induction n arbitrary: i) (auto split: nat.splits)

lemma multiply_fold_zeros:
  "\<forall>i\<in>set is. 2 * i + 1 < 256 \<Longrightarrow>
     fold (\<lambda>i h_hat.
             let gamma = GAMMA_PRECOMP ! i;
                 (h0, h1) = base_case_multiply (f ! (2 * i)) (f ! (2 * i + 1))
                              (replicate 256 0 ! (2 * i)) (replicate 256 0 ! (2 * i + 1)) gamma
             in (h_hat[2 * i := h0])[2 * i + 1 := h1]) is (replicate 256 0)
       = replicate 256 0"
  by (induction "is")
     (simp_all add: base_case_multiply_def Let_def Q_def replicate_update_same)

lemma multiply_ntts_zeros:
  "256 \<le> length f \<Longrightarrow> multiply_ntts f (replicate 256 0) = Inr (replicate 256 0)"
  using multiply_fold_zeros [of "[0..<128]" f]
  by (simp add: multiply_ntts_def N_def del: upt_rec_numeral)

lemma poly_add_zeros: "poly_add (replicate 256 0) f = map (\<lambda>y. y mod Q) (take 256 f)"
  by (auto simp: poly_add_def list_eq_iff_nth_eq)


lemma fold_or_zeros:
  "\<forall>j\<in>set js. bits ! (i * 8 + j) = 0 \<Longrightarrow>
     fold (\<lambda>j a. a OR push_bit j (bits ! (i * 8 + j))) js (0::int) = 0"
  by (induction js) simp_all

lemma byte_at_zeros: "i < n \<Longrightarrow> byte_at (replicate (8 * n) 0) i = 0"
proof -
  assume "i < n"
  then have "\<forall>j\<in>set [0..<8]. replicate (8 * n) (0::int) ! (i * 8 + j) = 0"
    by (simp del: upt_rec_numeral)
  from fold_or_zeros [OF this] show ?thesis
    by (simp add: byte_at_def del: upt_rec_numeral)
qed

lemma bits_to_bytes_zeros: "bits_to_bytes (replicate (8 * n) 0) = Inr (replicate n 0)"
proof -
  have "map (byte_at (replicate (8 * n) 0)) [0..<n] = map (\<lambda>i. 0) [0..<n]"
    by (intro map_cong) (simp_all add: byte_at_zeros)
  then show ?thesis
    using bits_to_bytes_eq [of "replicate (8 * n) 0" n] by (simp add: map_replicate_const)
qed

lemma byte_encode_zeros: "byte_encode (replicate 256 0) 10 = Inr (replicate 320 0)"
proof -
  have "map (\<lambda>j. drop_bit j (0::int) AND 1) [0..<10] = replicate 10 0"
    by (simp add: map_replicate_const del: upt_rec_numeral)
  then have "concat (map (\<lambda>x. map (\<lambda>j. drop_bit j x AND 1) [0..<10]) (replicate 256 (0::int)))
               = replicate (8 * 320) 0"
    by (simp add: concat_replicate_replicate del: upt_rec_numeral)
  moreover have "encode_bits (replicate 256 0) 10 (push_bit 10 1)
                   = Inr (concat (map (\<lambda>x. map (\<lambda>j. drop_bit j x AND 1) [0..<10])
                                      (replicate 256 (0::int))))"
    by (rule encode_bits_ok) simp
  ultimately show ?thesis
    using bits_to_bytes_zeros [of 320]
    by (simp add: byte_encode_def Let_def del: upt_rec_numeral)
qed

lemma byte_decode_zeros: "byte_decode (replicate 320 0) 10 = Inr (replicate 256 0)"
  using byte_codec_roundtrip [of "replicate 256 0" 10] by (simp add: byte_encode_zeros)

lemma compress_small:
  "\<forall>x\<in>set xs. x = 0 \<or> x = 1 \<Longrightarrow>
     map_err (\<lambda>coeff. compress coeff 10) xs = Inr (replicate (length xs) 0)"
  by (induction xs) (auto simp: compress_10)

lemma decompress_zeros:
  "map_err (\<lambda>y. decompress y 10) (replicate n 0) = Inr (replicate n 0)"
  by (induction n) (auto simp: decompress_10)

lemma sha3_512_toy: "sha3_512 toy_hashes data = 1 # replicate 63 0"
proof -
  have "map (\<lambda>i. if i = 0 then 1 else (0::byte)) [0..<64] = 1 # replicate 63 0"
    by code_simp
  then show ?thesis by (simp add: sha3_512_def toy_hashes_def)
qed

lemma H_toy: "length s = 32 \<Longrightarrow> H toy_hashes s = s"
  by (auto simp: H_def sha3_256_def toy_hashes_def list_eq_iff_nth_eq)

lemma encode_message_unit:
  "encode_message (1 # replicate 31 0) = Inr (1 # replicate 255 0)"
  by code_simp

lemma decode_message_zeros: "decode_message (replicate 256 0) = Inr (replicate 32 0)"
  using bits_to_bytes_zeros [of 32]
  by (simp add: decode_message_def Q_def map_replicate_const)


lemma PRF_toy: "length s = 32 \<Longrightarrow> PRF toy_hashes 2 s [b] = Inr (replicate 128 0)"
  by (simp add: PRF_ok)

lemma poly_add_zeros_zeros: "poly_add (replicate 256 0) (replicate 256 0) = replicate 256 0"
  by (simp add: poly_add_def Q_def)

lemma poly_add_zeros_unit:
  "poly_add (replicate 256 0) (concat (replicate 128 [1, 0])) = concat (replicate 128 [1, 0])"
  by code_simp

lemma k_pke_keygen_toy:
  "k_pke_keygen toy_hashes 10 2 2 (replicate 32 0) (replicate 32 0)
     = Some (Inr ((replicate 256 0, replicate 256 0),
                  (replicate 320 0, replicate 256 0, replicate 256 0)))"
  by (simp add: k_pke_keygen_def PRF_toy sample_poly_cbd_zeros sample_ntt_toy ntt_zeros
        multiply_ntts_zeros poly_add_zeros_zeros byte_encode_zeros bind_err_def Let_def)

lemma k_pke_encrypt_toy:
  "k_pke_encrypt toy_hashes (replicate 256 0, replicate 256 0)
     (1 # replicate 31 0) (1 # replicate 31 0) 10 2 = Inr (replicate 640 0)"
proof -
  have "length (concat (replicate 128 [1::int, 0])) = 256"
    by code_simp
  moreover have "\<forall>x\<in>set (concat (replicate 128 [1::int, 0])). x = 0 \<or> x = 1"
    by auto
  ultimately have c: "map_err (\<lambda>coeff. compress coeff 10) (concat (replicate 128 [1, 0]))
             = Inr (replicate 256 0)"
    using compress_small [of "concat (replicate 128 [1, 0])"] by simp
  have z: "map_err (\<lambda>coeff. compress coeff 10) (replicate 256 0) = Inr (replicate 256 0)"
    using compress_small [of "replicate 256 0"] by simp
  have "replicate 320 (0::byte) @ replicate 320 0 = replicate 640 0"
    by (simp add: replicate_add [symmetric])
  then show ?thesis
    by (simp add: k_pke_encrypt_def PRF_toy sample_poly_cbd_zeros ntt_zeros
          multiply_ntts_zeros poly_add_zeros_zeros encode_message_unit ntt_unit
          poly_add_zeros_unit c z byte_encode_zeros bind_err_def Let_def)
qed

lemma k_pke_decrypt_toy:
  "k_pke_decrypt (replicate 320 0, replicate 256 0, replicate 256 0) (replicate 640 0) 10
     = Inr (replicate 32 0)"
proof -
  have "map (\<lambda>(vh, uh). (vh - uh) mod 3329) (zip (replicate 256 (0::int)) (replicate 256 0))
          = replicate 256 0"
    by simp
  then show ?thesis
    by (simp add: k_pke_decrypt_def byte_decode_zeros decompress_zeros ntt_zeros
          multiply_ntts_zeros ntt_inv_zeros decode_message_zeros bind_err_def Let_def)
qed

text \<open>
  That decapsulation returns the shared secret of encapsulation does not follow from the
  code alone, whatever the hash functions return. Under \<open>toy_hashes\<close>, key generation with
  \<open>d = 10\<close> succeeds (all polynomials are zero), encapsulation derives the ephemeral value
  \<open>01 00 ... 00\<close>, whose message polynomial has coefficients 0 and 1 in the NTT domain;
  \<open>compress\<close> maps them all to 0, the ciphertext is 640 zero bytes, and decapsulation
  decrypts it to 32 zero bytes: the two shared secrets differ. This says nothing about the
  hash functions of \<open>hashlib\<close>, which \<open>toy_hashes\<close> does not agree with.
\<close>

lemma ml_kem_toy_secrets_differ:
  "ml_kem_keygen_internal toy_hashes 10 (replicate 32 0) (replicate 32 0)
     = Some (Inr (Tuple1 (replicate 256 0, replicate 256 0),
                  Tuple1 (replicate 320 0, replicate 256 0, replicate 256 0)))
   \<and> ml_kem_encaps_internal toy_hashes (Tuple1 (replicate 256 0, replicate 256 0))
        (replicate 32 0) 10 = Inr (replicate 640 0, 1 # replicate 31 0)
   \<and> ml_kem_decaps_internal toy_hashes
        (Tuple1 (replicate 320 0, replicate 256 0, replicate 256 0)) (replicate 640 0) 10
       = Inr (replicate 32 0)
   \<and> replicate 32 (0::byte) \<noteq> 1 # replicate 31 0"
proof -
  have g: "take 32 (1 # replicate 63 (0::byte)) = 1 # replicate 31 0"
    by (simp add: take_Cons')
  have ne: "replicate 32 (0::byte) \<noteq> 1 # replicate 31 0"
    by (simp add: numeral_eq_Suc)
  have h1: "H toy_hashes (1 # replicate 31 0) = 1 # replicate 31 0"
    by (rule H_toy) simp
  have h0: "H toy_hashes (replicate 32 0) = replicate 32 0"
    by (rule H_toy) simp
  have kg: "ml_kem_keygen_internal toy_hashes 10 (replicate 32 0) (replicate 32 0)
     = Some (Inr (Tuple1 (replicate 256 0, replicate 256 0),
                  Tuple1 (replicate 320 0, replicate 256 0, replicate 256 0)))"
    by (simp add: ml_kem_keygen_internal_def k_pke_keygen_toy)
  have en: "ml_kem_encaps_internal toy_hashes (Tuple1 (replicate 256 0, replicate 256 0))
        (replicate 32 0) 10 = Inr (replicate 640 0, 1 # replicate 31 0)"
    by (simp add: ml_kem_encaps_internal_def G_def sha3_512_toy g k_pke_encrypt_toy h1
          bind_err_def Let_def)
  have de: "ml_kem_decaps_internal toy_hashes
        (Tuple1 (replicate 320 0, replicate 256 0, replicate 256 0)) (replicate 640 0) 10
       = Inr (replicate 32 0)"
    by (simp add: ml_kem_decaps_internal_def k_pke_decrypt_toy h0 bind_err_def)
  from kg en de ne show ?thesis by blast
qed

text \<open>Key generation can only succeed when every coefficient of \<open>t_hat\<close> fits in \<open>d\<close> bits:
  \<open>byte_encode (t_hat, d)\<close> rejects any other.\<close>

lemma k_pke_keygen_small_t_hat:
  assumes "k_pke_keygen h d eta1 eta2 r1 r2 = Some (Inr ((A, t_hat), dk))" and "d < 12"
  shows "\<forall>x\<in>set t_hat. 0 \<le> x \<and> x < 2 ^ d"
proof -
  from assms(1) obtain b where "byte_encode t_hat d = Inr b"
    by (auto simp: k_pke_keygen_def bind_err_def Let_def
          split: sum.splits option.splits prod.splits)
  then obtain bits where "encode_bits t_hat d (push_bit d 1) = Inr bits"
    using assms(2) by (auto simp: byte_encode_def Let_def split: if_splits sum.splits)
  from encode_bits_Inr [OF this] show ?thesis
    by (simp add: push_bit_eq_mult)
qed

end
